theory Spec2Isabelle
  imports Main
begin

section \<open>The content processor of the static-site generator\<close>

text \<open>
  JavaScript strings are modelled as \<^typ>\<open>string\<close>, one \<^typ>\<open>char\<close> per code unit
  (code units below 256). The string methods the source calls are written out below
  under their JavaScript names.
\<close>

subsection \<open>String methods\<close>

definition startsWith :: "string \<Rightarrow> string \<Rightarrow> bool" where
  "startsWith s p = (take (length p) s = p)"

definition endsWith :: "string \<Rightarrow> string \<Rightarrow> bool" where
  "endsWith s p = (length p \<le> length s \<and> drop (length s - length p) s = p)"

text \<open>\<open>s.replace(p, r)\<close> with a string pattern: only the first occurrence is replaced.\<close>

fun replace_first :: "string \<Rightarrow> string \<Rightarrow> string \<Rightarrow> string" where
  "replace_first p r [] = (if p = [] then r else [])"
| "replace_first p r (c # cs) =
     (if startsWith (c # cs) p then r @ drop (length p) (c # cs)
      else c # replace_first p r cs)"

text \<open>\<open>s.includes(p)\<close>, and the number of positions of \<open>s\<close> at which \<open>p\<close> occurs.\<close>

fun contains :: "string \<Rightarrow> string \<Rightarrow> bool" where
  "contains [] p = (p = [])"
| "contains (c # cs) p = (startsWith (c # cs) p \<or> contains cs p)"

fun occurrences :: "string \<Rightarrow> string \<Rightarrow> nat" where
  "occurrences p [] = (if p = [] then 1 else 0)"
| "occurrences p (c # cs) = (if startsWith (c # cs) p then 1 else 0) + occurrences p cs"

text \<open>\<open>s.replace(/\\/g, '/')\<close>: every backslash becomes a forward slash.\<close>

definition backslash :: char where
  "backslash = CHR 0x5C"

definition slashes :: "string \<Rightarrow> string" where
  "slashes s = map (\<lambda>c. if c = backslash then CHR ''/'' else c) s"

text \<open>\<open>s.replace(/\/$/, '')\<close>: one trailing slash is removed.\<close>

definition strip_trailing_slash :: "string \<Rightarrow> string" where
  "strip_trailing_slash s = (if endsWith s ''/'' then butlast s else s)"

text \<open>\<open>s.split(sep)\<close> for a one-character separator; the empty string gives \<open>['']\<close>.\<close>

fun split_on :: "char \<Rightarrow> string \<Rightarrow> string list" where
  "split_on sep [] = [[]]"
| "split_on sep (c # cs) =
     (case split_on sep cs of
        [] \<Rightarrow> (if c = sep then [[], []] else [[c]])
      | seg # segs \<Rightarrow> (if c = sep then [] # seg # segs else (c # seg) # segs))"

text \<open>\<open>xs.join(sep)\<close>.\<close>

fun join :: "string \<Rightarrow> string list \<Rightarrow> string" where
  "join sep [] = []"
| "join sep [x] = x"
| "join sep (x # y # ys) = x @ sep @ join sep (y # ys)"

subsection \<open>The path module\<close>

text \<open>
  \<open>path.join\<close> of Node.js on a POSIX host: the non-empty arguments are joined with
  \<open>/\<close> and the result is normalised, which drops empty and \<open>.\<close> segments and lets a
  \<open>..\<close> segment remove the segment before it; above the root of an absolute path a
  \<open>..\<close> is dropped, in a relative path it is kept.
\<close>

fun normalizeString :: "bool \<Rightarrow> string list \<Rightarrow> string list \<Rightarrow> string list" where
  "normalizeString allowAboveRoot res [] = res"
| "normalizeString allowAboveRoot res (seg # segs) =
     (if seg = [] \<or> seg = ''.'' then normalizeString allowAboveRoot res segs
      else if seg = ''..'' then
        (if res \<noteq> [] \<and> last res \<noteq> ''..''
           then normalizeString allowAboveRoot (butlast res) segs
         else if allowAboveRoot
           then normalizeString allowAboveRoot (res @ [''..'']) segs
         else normalizeString allowAboveRoot res segs)
      else normalizeString allowAboveRoot (res @ [seg]) segs)"

definition path_normalize :: "string \<Rightarrow> string" where
  "path_normalize p =
     (if p = [] then ''.''
      else
        let isAbsolute = (hd p = CHR ''/'');
            trailingSeparator = (last p = CHR ''/'');
            r = join ''/'' (normalizeString (\<not> isAbsolute) [] (split_on CHR ''/'' p))
        in if r = [] then
             (if isAbsolute then ''/'' else if trailingSeparator then ''./'' else ''.'')
           else (if isAbsolute then ''/'' else []) @ r
                @ (if trailingSeparator then ''/'' else []))"

definition path_join :: "string list \<Rightarrow> string" where
  "path_join args =
     (let joined = filter (\<lambda>a. a \<noteq> []) args
      in if joined = [] then ''.'' else path_normalize (join ''/'' joined))"

subsection \<open>Link transformer\<close>

text \<open>A link token of the markdown renderer; every other field of the token is kept
  in the extension part of the record.\<close>

record link_token =
  href :: string
  title :: "string option"
  link_text :: string

definition is_letter :: "char \<Rightarrow> bool" where
  "is_letter c =
     (c \<in> set ''abcdefghijklmnopqrstuvwxyzABCDEFGHIJKLMNOPQRSTUVWXYZ'')"

definition is_scheme_char :: "char \<Rightarrow> bool" where
  "is_scheme_char c = (is_letter c \<or> c \<in> set ''0123456789+.-'')"

text \<open>The test \<open>/^[a-zA-Z][a-zA-Z0-9+.-]*:/.test(href)\<close>.\<close>

definition hasProtocol :: "string \<Rightarrow> bool" where
  "hasProtocol h =
     (case h of
        [] \<Rightarrow> False
      | c # cs \<Rightarrow> is_letter c \<and>
          (case dropWhile is_scheme_char cs of [] \<Rightarrow> False | d # _ \<Rightarrow> d = CHR '':''))"

text \<open>The \<open>href\<close> that \<open>renderer.link\<close> puts into the modified token.\<close>

definition link_href :: "string \<Rightarrow> string \<Rightarrow> string" where
  "link_href currentDirectory h =
     (if h \<noteq> [] \<and> \<not> hasProtocol h \<and> \<not> startsWith h ''#'' then
        let h1 = (if endsWith h ''.md'' then take (length h - 3) h else h)
        in if startsWith h1 ''./'' \<or> startsWith h1 ''../'' then
             strip_trailing_slash (slashes (path_join [''/'', currentDirectory, h1]))
           else if \<not> startsWith h1 ''/'' then
             slashes (path_join [''/'', currentDirectory, h1])
           else h1
      else h)"

text \<open>\<open>createLinkTransformer(currentDirectory)\<close> returns a renderer whose \<open>link\<close>
  method hands the modified token to the renderer's original \<open>link\<close> method.\<close>

definition createLinkTransformer ::
  "('a link_token_scheme \<Rightarrow> string) \<Rightarrow> string \<Rightarrow> 'a link_token_scheme \<Rightarrow> string" where
  "createLinkTransformer originalLinkRenderer currentDirectory token =
     originalLinkRenderer (token\<lparr>href := link_href currentDirectory (href token)\<rparr>)"

subsection \<open>Heading stripper\<close>

text \<open>
  \<open>html.replace(/<h1[^>]*>(.*?)<\/h1>/, '')\<close>. The pattern can match at a position
  only in one way: \<open>[^>]*\<close> has to stop in front of the first \<open>>\<close> after \<open><h1\<close>,
  and the lazy \<open>.*?\<close> stops at the first \<open></h1>\<close>, which it reaches only when no line
  terminator comes before it (\<open>.\<close> does not match one).
\<close>

definition is_line_terminator :: "char \<Rightarrow> bool" where
  "is_line_terminator c = (c = CHR 0x0A \<or> c = CHR 0x0D)"

fun h1_close :: "string \<Rightarrow> string option" where
  "h1_close [] = None"
| "h1_close (c # cs) =
     (if startsWith (c # cs) ''</h1>'' then Some (drop 5 (c # cs))
      else if is_line_terminator c then None
      else h1_close cs)"

text \<open>The rest of the input behind a match that starts at the head of the input.\<close>

definition h1_at :: "string \<Rightarrow> string option" where
  "h1_at s =
     (if startsWith s ''<h1'' then
        (case dropWhile (\<lambda>c. c \<noteq> CHR ''>'') (drop 3 s) of
           [] \<Rightarrow> None
         | _ # body \<Rightarrow> h1_close body)
      else None)"

fun removeFirstH1 :: "string \<Rightarrow> string" where
  "removeFirstH1 [] = []"
| "removeFirstH1 (c # cs) =
     (case h1_at (c # cs) of
        Some rest \<Rightarrow> rest
      | None \<Rightarrow> c # removeFirstH1 cs)"

text \<open>The number of matches the pattern finds in a text from left to right, each
  search starting behind the match before it.\<close>

function h1_count :: "string \<Rightarrow> nat" where
  "h1_count [] = 0"
| "h1_count (c # cs) =
     (case h1_at (c # cs) of
        Some rest \<Rightarrow> Suc (h1_count rest)
      | None \<Rightarrow> h1_count cs)"
  by pat_completeness auto
termination
proof (relation "measure length")
  show "wf (measure (length :: string \<Rightarrow> nat))"
    by simp
next
  fix c :: char and cs :: string
  show "(cs, c # cs) \<in> measure length"
    by simp
next
  fix c :: char and cs rest :: string
  assume m: "h1_at (c # cs) = Some rest"
  have close: "h1_close s = Some r \<Longrightarrow> length r < length s" for s r
  proof (induction s)
    case Nil
    then show ?case by simp
  next
    case (Cons d ds)
    then show ?case
      by (cases "startsWith (d # ds) ''</h1>''") (auto split: if_splits)
  qed
  from m obtain x body where d: "dropWhile (\<lambda>c. c \<noteq> CHR ''>'') (drop 3 (c # cs)) = x # body"
    and b: "h1_close body = Some rest"
    by (auto simp: h1_at_def split: if_splits list.splits)
  have "length (dropWhile (\<lambda>c. c \<noteq> CHR ''>'') (drop 3 (c # cs))) \<le> length (drop 3 (c # cs))"
    by (rule length_dropWhile_le)
  with d have "length body < length (c # cs)"
    by simp
  with close [OF b] show "(rest, c # cs) \<in> measure length"
    by simp
qed

subsection \<open>Title formatter\<close>

text \<open>\<open>toUpperCase\<close> on one character: exact on ASCII, where it changes the letters
  \<open>a\<close> to \<open>z\<close> only; every other character is returned as it is.\<close>

definition toUpperCase :: "char \<Rightarrow> char" where
  "toUpperCase c =
     (case map_of (zip ''abcdefghijklmnopqrstuvwxyz'' ''ABCDEFGHIJKLMNOPQRSTUVWXYZ'') c of
        Some u \<Rightarrow> u
      | None \<Rightarrow> c)"

definition capitalize :: "string \<Rightarrow> string" where
  "capitalize word = (case word of [] \<Rightarrow> [] | c # cs \<Rightarrow> toUpperCase c # cs)"

definition formatTitle :: "string \<Rightarrow> string" where
  "formatTitle slug = join '' '' (map capitalize (split_on CHR ''-'' slug))"

subsection \<open>Template variables\<close>

text \<open>White space as \<open>String.prototype.trim\<close> sees it, among the code units below 256.\<close>

definition is_space :: "char \<Rightarrow> bool" where
  "is_space c =
     (c \<in> {CHR 0x09, CHR 0x0A, CHR 0x0B, CHR 0x0C, CHR 0x0D, CHR 0x20, CHR 0xA0})"

definition trim :: "string \<Rightarrow> string" where
  "trim s = rev (dropWhile is_space (rev (dropWhile is_space s)))"

text \<open>
  A match of \<open>/\{\{([^}]+)\}\}/\<close> at the head of the input: the captured name and the
  rest of the input behind the match. \<open>[^}]+\<close> has to take every character up to the
  first \<open>}\<close>, since the pattern goes on with \<open>}}\<close>.
\<close>

definition placeholder_at :: "string \<Rightarrow> (string \<times> string) option" where
  "placeholder_at s =
     (if startsWith s ''{{'' then
        let variableName = takeWhile (\<lambda>c. c \<noteq> CHR ''}'') (drop 2 s);
            rest = dropWhile (\<lambda>c. c \<noteq> CHR ''}'') (drop 2 s)
        in if variableName \<noteq> [] \<and> startsWith rest ''}}''
           then Some (variableName, drop 2 rest) else None
      else None)"

text \<open>
  The table \<open>variables\<close> is built from the site configuration, which is not part of
  the sources: it is a parameter here, each value given by its string form (what the
  replacement inserts). The result is the processed text with the names that
  \<open>console.warn\<close> reported, in order.
\<close>

type_synonym variable_table = "(string \<times> string) list"

function processTemplateVariables :: "variable_table \<Rightarrow> string \<Rightarrow> string \<times> string list" where
  "processTemplateVariables variables [] = ([], [])"
| "processTemplateVariables variables (c # cs) =
     (case placeholder_at (c # cs) of
        None \<Rightarrow>
          (let (out, warnings) = processTemplateVariables variables cs
           in (c # out, warnings))
      | Some (variableName, rest) \<Rightarrow>
          (let trimmedName = trim variableName;
               (out, warnings) =
                 processTemplateVariables variables rest
           in case map_of variables trimmedName of
                Some v \<Rightarrow> (v @ out, warnings)
              | None \<Rightarrow> (''{{'' @ variableName @ ''}}'' @ out, trimmedName # warnings)))"
  by pat_completeness auto
termination
proof (relation "measure (\<lambda>(variables, s). length s)")
  show "wf (measure (\<lambda>(variables :: variable_table, s :: string). length s))"
    by simp
next
  fix variables :: variable_table and c :: char and cs :: string
  show "((variables, cs), (variables, c # cs)) \<in> measure (\<lambda>(variables, s). length s)"
    by simp
next
  fix variables :: variable_table and c :: char and cs variableName rest :: string
    and x :: "string \<times> string"
  assume "placeholder_at (c # cs) = Some x" and "(variableName, rest) = x"
  then have "placeholder_at (c # cs) = Some (variableName, rest)"
    by simp
  then have "rest = drop 2 (dropWhile (\<lambda>c. c \<noteq> CHR ''}'') (drop 2 (c # cs)))"
    by (simp add: placeholder_at_def Let_def split: if_splits)
  moreover have "length (dropWhile (\<lambda>c. c \<noteq> CHR ''}'') (drop 2 (c # cs))) \<le> length (drop 2 (c # cs))"
    by (rule length_dropWhile_le)
  ultimately have "length rest < length (c # cs)"
    by simp
  then show "((variables, rest), (variables, c # cs)) \<in> measure (\<lambda>(variables, s). length s)"
    by simp
qed

subsection \<open>Values and objects\<close>

text \<open>
  The values a front-matter field can hold: YAML scalars, with numbers restricted to
  integers, and \<open>JDate\<close> for the \<open>Date\<close> object an unquoted date is parsed to (its
  argument the time stamp). \<open>undefined\<close>, what reading a missing property gives, is
  \<open>None\<close> of \<^typ>\<open>'a option\<close> where a property is looked up.
\<close>

datatype jsval = JNull | JBool bool | JNum int | JStr string | JDate int

text \<open>An object with string keys: its own properties as an association list.\<close>

type_synonym js_object = "(string \<times> jsval) list"

definition obj_get :: "js_object \<Rightarrow> string \<Rightarrow> jsval option" where
  "obj_get obj k = map_of obj k"

fun obj_set :: "js_object \<Rightarrow> string \<Rightarrow> jsval \<Rightarrow> js_object" where
  "obj_set [] k v = [(k, v)]"
| "obj_set ((k', v') # obj) k v =
     (if k' = k then (k, v) # obj else (k', v') # obj_set obj k v)"

text \<open>\<open>{...defaults, ...obj}\<close>: the properties of \<open>obj\<close> are written over the defaults.\<close>

definition spread :: "js_object \<Rightarrow> js_object \<Rightarrow> js_object" where
  "spread defaults obj = fold (\<lambda>(k, v) acc. obj_set acc k v) obj defaults"

definition truthy :: "jsval option \<Rightarrow> bool" where
  "truthy v =
     (case v of
        None \<Rightarrow> False
      | Some JNull \<Rightarrow> False
      | Some (JBool b) \<Rightarrow> b
      | Some (JNum n) \<Rightarrow> n \<noteq> 0
      | Some (JStr s) \<Rightarrow> s \<noteq> []
      | Some (JDate t) \<Rightarrow> True)"

text \<open>\<open>v || d\<close> where \<open>v\<close> is a property read.\<close>

definition or_else :: "jsval option \<Rightarrow> jsval \<Rightarrow> jsval" where
  "or_else v d = (if truthy v then the v else d)"

subsection \<open>Directory scanner\<close>

record content_entry =
  slug :: string
  path :: string
  url :: string
  directory :: string
  mainDirectory :: string
  depth :: nat
  content :: string
  metadata :: js_object

text \<open>
  The content folder as \<open>readdirSync\<close> and \<open>statSync\<close> show it: a directory is the list
  of its entries in listing order; a file has a name and, when it can be read, its text;
  \<open>Special\<close> is an entry that is neither a directory nor a regular file.
\<close>

datatype fs_node =
    Dir string "fs_node list"
  | File string "string option"
  | Special string

datatype content_root = Missing | Folder "fs_node list"

datatype failure = ReadError | FrontMatterError | TypeError | OrderNotANumber

text \<open>
  The libraries and the configuration the module imports: \<open>matter\<close> (gray-matter, which
  throws on a malformed block), \<open>marked.parse\<close> with the renderer's \<open>link\<close> method as its
  argument, the \<open>link\<close> method of a fresh \<open>marked.Renderer\<close>, and the table of template
  variables.
\<close>

record env =
  variables :: variable_table
  matter :: "string \<Rightarrow> (js_object \<times> string) option"
  marked_parse :: "(link_token \<Rightarrow> string) \<Rightarrow> string \<Rightarrow> string"
  originalLinkRenderer :: "link_token \<Rightarrow> string"

definition processMetadata :: "variable_table \<Rightarrow> js_object \<Rightarrow> js_object" where
  "processMetadata vars data =
     map (\<lambda>(key, val).
            (key, case val of
                    JStr s \<Rightarrow> JStr (fst (processTemplateVariables vars s))
                  | _ \<Rightarrow> val)) data"

definition finalMetadata :: "string \<Rightarrow> js_object \<Rightarrow> js_object" where
  "finalMetadata slug' processedMetadata =
     spread
       [(''title'', or_else (obj_get processedMetadata ''title'') (JStr (formatTitle slug'))),
        (''description'', or_else (obj_get processedMetadata ''description'') (JStr [])),
        (''date'', or_else (obj_get processedMetadata ''date'') JNull),
        (''author'', or_else (obj_get processedMetadata ''author'') JNull)]
       processedMetadata"

text \<open>The body of the loop of \<open>scanDir\<close> for a regular file whose name ends in \<open>.md\<close>.\<close>

definition scanFile ::
  "env \<Rightarrow> string \<Rightarrow> string \<Rightarrow> string option \<Rightarrow> failure + content_entry" where
  "scanFile E relativePath entry file =
     (let slug' = replace_first ''.md'' [] entry;
          url' = (if relativePath \<noteq> [] then slashes (''/'' @ relativePath @ ''/'' @ slug')
                  else ''/'' @ slug')
      in case file of
           None \<Rightarrow> Inl ReadError
         | Some raw \<Rightarrow>
            (case matter E raw of
               None \<Rightarrow> Inl FrontMatterError
             | Some (data, markdownContent) \<Rightarrow>
                 let processedMarkdownContent =
                       fst (processTemplateVariables (variables E) markdownContent);
                     processedMetadata = processMetadata (variables E) data;
                     directory' = slashes relativePath;
                     renderer = createLinkTransformer (originalLinkRenderer E) directory';
                     html = removeFirstH1 (marked_parse E renderer processedMarkdownContent);
                     parts = split_on CHR ''/'' directory'
                 in Inr \<lparr> slug = slug',
                          path = path_join [relativePath, entry],
                          url = url',
                          directory = directory',
                          mainDirectory = (if hd parts \<noteq> [] then hd parts else ''root''),
                          depth = (if directory' = [] then 0 else length parts),
                          content = html,
                          metadata = finalMetadata slug' processedMetadata \<rparr>))"

text \<open>\<open>scanDir\<close> pushes onto \<open>contentEntries\<close>, here the last argument; an exception
  ends the whole scan.\<close>

fun scanDir :: "env \<Rightarrow> string \<Rightarrow> fs_node list \<Rightarrow> content_entry list
                \<Rightarrow> failure + content_entry list"
  and scanEntry :: "env \<Rightarrow> string \<Rightarrow> fs_node \<Rightarrow> content_entry list
                \<Rightarrow> failure + content_entry list" where
  "scanDir E relativePath [] contentEntries = Inr contentEntries"
| "scanDir E relativePath (n # ns) contentEntries =
     (case scanEntry E relativePath n contentEntries of
        Inl e \<Rightarrow> Inl e
      | Inr contentEntries' \<Rightarrow> scanDir E relativePath ns contentEntries')"
| "scanEntry E relativePath (Dir entry children) contentEntries =
     scanDir E (path_join [relativePath, entry]) children contentEntries"
| "scanEntry E relativePath (File entry file) contentEntries =
     (if endsWith entry ''.md'' then
        (case scanFile E relativePath entry file of
           Inl e \<Rightarrow> Inl e
         | Inr e \<Rightarrow> Inr (contentEntries @ [e]))
      else Inr contentEntries)"
| "scanEntry E relativePath (Special entry) contentEntries = Inr contentEntries"

definition scanContentDirectory :: "env \<Rightarrow> content_root \<Rightarrow> failure + content_entry list" where
  "scanContentDirectory E root =
     (case root of
        Missing \<Rightarrow> Inr []
      | Folder entries \<Rightarrow> scanDir E [] entries [])"

subsection \<open>Content cache\<close>

text \<open>
  The module variable \<open>cachedContent\<close> is the state: \<open>None\<close> is \<open>null\<close>. Every function
  that reads it takes the state and returns the new one beside its result. \<open>isDev\<close> is
  the development-mode signal of the environment and \<open>root\<close> the content folder on disk
  at the time of the call.
\<close>

type_synonym cache = "content_entry list option"

definition getAllContent ::
  "env \<Rightarrow> bool \<Rightarrow> content_root \<Rightarrow> cache \<Rightarrow> (failure + content_entry list) \<times> cache" where
  "getAllContent E isDev root cachedContent =
     (if \<not> isDev \<and> cachedContent \<noteq> None then (Inr (the cachedContent), cachedContent)
      else
        let cachedContent1 = (if isDev then None else cachedContent)
        in case scanContentDirectory E root of
             Inl e \<Rightarrow> (Inl e, cachedContent1)
           | Inr content' \<Rightarrow>
               (Inr content', if \<not> isDev then Some content' else cachedContent1))"

definition clearContentCache :: "cache \<Rightarrow> cache" where
  "clearContentCache cachedContent = None"

text \<open>A sequence of \<open>getAllContent\<close> calls, one for each state of the disk in the list.\<close>

fun getAllContent_calls ::
  "env \<Rightarrow> bool \<Rightarrow> content_root list \<Rightarrow> cache \<Rightarrow> (failure + content_entry list) list \<times> cache" where
  "getAllContent_calls E isDev [] cachedContent = ([], cachedContent)"
| "getAllContent_calls E isDev (root # roots) cachedContent =
     (let (r, cachedContent1) = getAllContent E isDev root cachedContent;
          (rs, cachedContent2) = getAllContent_calls E isDev roots cachedContent1
      in (r # rs, cachedContent2))"

subsection \<open>Query layer\<close>

text \<open>The filter of \<open>getContentByDirectory\<close> on the content \<open>getAllContent\<close> returned.\<close>

definition under_directory :: "string \<Rightarrow> content_entry \<Rightarrow> bool" where
  "under_directory dir entry =
     (directory entry = dir \<or> startsWith (directory entry) (dir @ ''/''))"

definition contentByDirectory :: "string \<Rightarrow> content_entry list \<Rightarrow> content_entry list" where
  "contentByDirectory dir allContent =
     (if dir = ''root'' then filter (\<lambda>entry. directory entry = ''root'') allContent
      else filter (under_directory dir) allContent)"

definition getContentByDirectory ::
  "env \<Rightarrow> bool \<Rightarrow> content_root \<Rightarrow> cache \<Rightarrow> string
     \<Rightarrow> (failure + content_entry list) \<times> cache" where
  "getContentByDirectory E isDev root cachedContent dir =
     (case getAllContent E isDev root cachedContent of
        (Inl e, cachedContent1) \<Rightarrow> (Inl e, cachedContent1)
      | (Inr allContent, cachedContent1) \<Rightarrow>
          (Inr (contentByDirectory dir allContent), cachedContent1))"

subsection \<open>Sidebar\<close>

record sidebar_item =
  item_title :: "jsval option"
  item_url :: string
  item_order :: jsval

datatype sidebar_node = Leaf sidebar_item | Group string "sidebar_item list"

record sidebar_group =
  group_title :: string
  items :: "sidebar_item list"

text \<open>
  \<open>groups\<close> is a plain object: its own properties in the order they were created.
  Reading \<open>groups[key]\<close> also finds what the object inherits from \<open>Object.prototype\<close>.
\<close>

type_synonym groups = "(string \<times> sidebar_group) list"

definition object_prototype_keys :: "string list" where
  "object_prototype_keys =
     [''constructor'', ''__defineGetter__'', ''__defineSetter__'', ''hasOwnProperty'',
      ''__lookupGetter__'', ''__lookupSetter__'', ''isPrototypeOf'',
      ''propertyIsEnumerable'', ''toString'', ''valueOf'', ''__proto__'',
      ''toLocaleString'']"

definition is_digit :: "char \<Rightarrow> bool" where
  "is_digit c = (c \<in> set ''0123456789'')"

definition decimal_value :: "string \<Rightarrow> int" where
  "decimal_value s = foldl (\<lambda>n c. 10 * n + (of_char c - 48)) 0 s"

text \<open>An array index: the canonical decimal form of an integer below \<open>2^32 - 1\<close>.\<close>

definition is_array_index :: "string \<Rightarrow> bool" where
  "is_array_index s =
     (s \<noteq> [] \<and> list_all is_digit s \<and> (hd s \<noteq> CHR ''0'' \<or> s = ''0'')
      \<and> decimal_value s < 4294967295)"

text \<open>\<open>Object.entries\<close>: the array-index keys first, in ascending numeric order, then
  the other keys in the order of their creation.\<close>

definition object_entries :: "(string \<times> 'v) list \<Rightarrow> (string \<times> 'v) list" where
  "object_entries obj =
     sort_key (\<lambda>(k, v). decimal_value k) (filter (\<lambda>(k, v). is_array_index k) obj)
     @ filter (\<lambda>(k, v). \<not> is_array_index k) obj"

definition groupKey :: "string \<Rightarrow> content_entry \<Rightarrow> string" where
  "groupKey dir entry =
     (let relativePath =
            (if directory entry = dir then []
             else replace_first (dir @ ''/'') [] (directory entry));
          parts = filter (\<lambda>p. p \<noteq> []) (split_on CHR ''/'' relativePath)
      in if parts = [] then ''_root'' else hd parts)"

definition sidebar_item_of :: "content_entry \<Rightarrow> sidebar_item" where
  "sidebar_item_of entry =
     \<lparr> item_title = obj_get (metadata entry) ''title'',
       item_url = url entry,
       item_order = or_else (obj_get (metadata entry) ''order'') (JNum 999) \<rparr>"

text \<open>\<open>groups[groupKey].items.push(item)\<close> for a key the object owns.\<close>

fun push_item :: "groups \<Rightarrow> string \<Rightarrow> sidebar_item \<Rightarrow> groups" where
  "push_item [] k it = []"
| "push_item ((k', g) # gs) k it =
     (if k' = k then (k', g\<lparr>items := items g @ [it]\<rparr>) # gs
      else (k', g) # push_item gs k it)"

text \<open>
  The callback of \<open>directoryContent.forEach\<close>. For a key that \<open>Object.prototype\<close>
  defines, \<open>groups[groupKey]\<close> is the inherited value: no group is created, \<open>.items\<close> is
  \<open>undefined\<close> and \<open>.push\<close> throws a TypeError.
\<close>

definition addEntry :: "string \<Rightarrow> groups \<Rightarrow> content_entry \<Rightarrow> failure + groups" where
  "addEntry dir gs entry =
     (let key = groupKey dir entry
      in if key \<in> set object_prototype_keys then Inl TypeError
         else
           let gs1 =
                 (if map_of gs key = None
                  then gs @ [(key, \<lparr> group_title =
                                       (if key = ''_root'' then formatTitle dir
                                        else formatTitle key),
                                     items = [] \<rparr>)]
                  else gs)
           in Inr (push_item gs1 key (sidebar_item_of entry)))"

fun groupEntries :: "string \<Rightarrow> content_entry list \<Rightarrow> groups \<Rightarrow> failure + groups" where
  "groupEntries dir [] gs = Inr gs"
| "groupEntries dir (entry # entries) gs =
     (case addEntry dir gs entry of
        Inl e \<Rightarrow> Inl e
      | Inr gs1 \<Rightarrow> groupEntries dir entries gs1)"

text \<open>
  \<open>group.items.sort((a, b) => a.order - b.order)\<close>. The sort of the language is stable,
  and for numbers the comparator is a consistent ordering, so the result is the stable
  sort by \<open>order\<close>. On an \<open>order\<close> that is not a number the comparator would coerce it;
  that is left out of the model, which answers \<open>OrderNotANumber\<close> there (not an
  exception of the program).
\<close>

definition is_number :: "jsval \<Rightarrow> bool" where
  "is_number v = (case v of JNum n \<Rightarrow> True | _ \<Rightarrow> False)"

definition number_of :: "jsval \<Rightarrow> int" where
  "number_of v = (case v of JNum n \<Rightarrow> n | _ \<Rightarrow> 0)"

definition sortItems :: "sidebar_item list \<Rightarrow> failure + sidebar_item list" where
  "sortItems its =
     (if list_all (\<lambda>it. is_number (item_order it)) its
      then Inr (sort_key (\<lambda>it. number_of (item_order it)) its)
      else Inl OrderNotANumber)"

fun sortGroups :: "groups \<Rightarrow> failure + groups" where
  "sortGroups [] = Inr []"
| "sortGroups ((k, g) # gs) =
     (case sortItems (items g) of
        Inl e \<Rightarrow> Inl e
      | Inr its \<Rightarrow>
          (case sortGroups gs of
             Inl e \<Rightarrow> Inl e
           | Inr gs1 \<Rightarrow> Inr ((k, g\<lparr>items := its\<rparr>) # gs1)))"

text \<open>The body of \<open>getSidebarTree\<close> on the content \<open>getAllContent\<close> returned.\<close>

definition sidebarTree :: "string \<Rightarrow> content_entry list \<Rightarrow> failure + sidebar_node list" where
  "sidebarTree dir allContent =
     (let directoryContent = filter (under_directory dir) allContent
      in case groupEntries dir directoryContent [] of
           Inl e \<Rightarrow> Inl e
         | Inr gs \<Rightarrow>
            (case sortGroups gs of
               Inl e \<Rightarrow> Inl e
             | Inr sorted_groups \<Rightarrow>
                 Inr ((case map_of sorted_groups ''_root'' of
                         None \<Rightarrow> []
                       | Some g \<Rightarrow> map Leaf (items g))
                      @ map (\<lambda>(key, g). Group (group_title g) (items g))
                          (object_entries
                             (filter (\<lambda>(key, g). key \<noteq> ''_root'') sorted_groups)))))"

definition getSidebarTree ::
  "env \<Rightarrow> bool \<Rightarrow> content_root \<Rightarrow> cache \<Rightarrow> string
     \<Rightarrow> (failure + sidebar_node list) \<times> cache" where
  "getSidebarTree E isDev root cachedContent dir =
     (case getAllContent E isDev root cachedContent of
        (Inl e, cachedContent1) \<Rightarrow> (Inl e, cachedContent1)
      | (Inr allContent, cachedContent1) \<Rightarrow> (sidebarTree dir allContent, cachedContent1))"

subsection \<open>The sidebar, written directly\<close>

text \<open>The distinct elements of a list in the order of their first occurrence.\<close>

fun first_seen :: "'a list \<Rightarrow> 'a list" where
  "first_seen [] = []"
| "first_seen (x # xs) = x # filter (\<lambda>y. y \<noteq> x) (first_seen xs)"

text \<open>
  What the sidebar functions compute, as plain list expressions: the \<open>groups\<close> object
  once every entry of a list has been added, the same after the sort, and the order the
  code sorts an entry by: its front-matter \<open>order\<close> when that is a number other than
  zero, and 999 when the field is missing or falsy. The theorems relate them to the
  functions above.
\<close>

definition group_for :: "string \<Rightarrow> content_entry list \<Rightarrow> string \<Rightarrow> sidebar_group" where
  "group_for dir entries k =
     \<lparr> group_title = (if k = ''_root'' then formatTitle dir else formatTitle k),
       items = map sidebar_item_of (filter (\<lambda>e. groupKey dir e = k) entries) \<rparr>"

definition groups_of :: "string \<Rightarrow> content_entry list \<Rightarrow> groups" where
  "groups_of dir entries =
     map (\<lambda>k. (k, group_for dir entries k)) (first_seen (map (groupKey dir) entries))"

definition effective_order :: "content_entry \<Rightarrow> int" where
  "effective_order entry =
     (case obj_get (metadata entry) ''order'' of
        Some (JNum n) \<Rightarrow> (if n = 0 then 999 else n)
      | _ \<Rightarrow> 999)"

definition sorted_group :: "string \<Rightarrow> content_entry list \<Rightarrow> string \<Rightarrow> sidebar_group" where
  "sorted_group dir entries k =
     \<lparr> group_title = (if k = ''_root'' then formatTitle dir else formatTitle k),
       items = map sidebar_item_of
                 (sort_key effective_order (filter (\<lambda>e. groupKey dir e = k) entries)) \<rparr>"

subsection \<open>Content folders with plain names\<close>

text \<open>
  The scanner builds slugs and urls from file names by text replacement. The uniqueness
  of the urls is proved for the folders described here: a name is not empty, not \<open>.\<close>
  or \<open>..\<close> and has no slash and no backslash; the names of one directory are
  distinct; and in the name of a markdown file the first \<open>.md\<close> is the extension.
\<close>

definition plain_name :: "string \<Rightarrow> bool" where
  "plain_name n =
     (n \<noteq> [] \<and> n \<noteq> ''.'' \<and> n \<noteq> ''..'' \<and> CHR ''/'' \<notin> set n \<and> backslash \<notin> set n)"

fun entry_name :: "fs_node \<Rightarrow> string" where
  "entry_name (Dir n children) = n"
| "entry_name (File n file) = n"
| "entry_name (Special n) = n"

text \<open>A file name in which the first \<open>.md\<close> is the extension.\<close>

definition plain_markdown_name :: "string \<Rightarrow> bool" where
  "plain_markdown_name n = (replace_first ''.md'' [] n = take (length n - 3) n)"

fun plain_tree :: "fs_node list \<Rightarrow> bool"
  and plain_node :: "fs_node \<Rightarrow> bool" where
  "plain_tree ns = (distinct (map entry_name ns) \<and> list_all plain_node ns)"
| "plain_node (Dir n children) = (plain_name n \<and> plain_tree children)"
| "plain_node (File n file) = (plain_name n \<and> (endsWith n ''.md'' \<longrightarrow> plain_markdown_name n))"
| "plain_node (Special n) = plain_name n"

text \<open>The path segments of the url of every markdown file below a directory, in scan
  order: the names of the directories on the way and the file name without extension.\<close>

fun url_keys :: "string list \<Rightarrow> fs_node list \<Rightarrow> string list list"
  and url_keys_node :: "string list \<Rightarrow> fs_node \<Rightarrow> string list list" where
  "url_keys segs [] = []"
| "url_keys segs (n # ns) = url_keys_node segs n @ url_keys segs ns"
| "url_keys_node segs (Dir d children) = url_keys (segs @ [d]) children"
| "url_keys_node segs (File n file) =
     (if endsWith n ''.md'' then [segs @ [take (length n - 3) n]] else [])"
| "url_keys_node segs (Special n) = []"

text \<open>The segment behind the directory's path and the length of a key tell the entry of
  the directory the key comes from.\<close>

fun key_tag :: "fs_node \<Rightarrow> string \<times> bool" where
  "key_tag (Dir d children) = (d, False)"
| "key_tag (File n file) = (take (length n - 3) n, True)"
| "key_tag (Special n) = (n, True)"

subsection \<open>Sample data\<close>

text \<open>
  An environment for the concrete runs below: the front-matter parser knows the files
  by their text (a file whose text is the name of a field set to the empty string
  stands for a front-matter block with that field alone), the markdown engine returns
  its input and a link is rendered as its \<open>href\<close>.
\<close>

definition sample_env :: env where
  "sample_env =
     \<lparr> variables = [(''site.name'', ''Acme'')],
       matter = (\<lambda>raw. if raw = ''title'' then Some ([(''title'', JStr [])], [])
                       else Some ([], raw)),
       marked_parse = (\<lambda>link markdown. markdown),
       originalLinkRenderer = href \<rparr>"

text \<open>An entry with the given directory, url and metadata.\<close>

definition sample_entry :: "string \<Rightarrow> string \<Rightarrow> js_object \<Rightarrow> content_entry" where
  "sample_entry dir u meta =
     \<lparr> slug = [], path = [], url = u, directory = dir, mainDirectory = [],
       depth = 0, content = [], metadata = meta \<rparr>"

section \<open>Theorems\<close>

subsection \<open>Link transformer\<close>

lemmas link_eval = link_href_def hasProtocol_def is_letter_def is_scheme_char_def
  startsWith_def endsWith_def path_join_def path_normalize_def strip_trailing_slash_def
  slashes_def backslash_def

lemma link_href_protocol: "hasProtocol h \<Longrightarrow> link_href dir h = h"
  by (simp add: link_href_def)

lemma link_href_fragment: "startsWith h ''#'' \<Longrightarrow> link_href dir h = h"
  by (simp add: link_href_def)

text \<open>An absolute link keeps its path; only a final \<open>.md\<close> is dropped.\<close>

lemma link_href_absolute:
  "startsWith h ''/'' \<Longrightarrow>
     link_href dir h = (if endsWith h ''.md'' then take (length h - 3) h else h)"
proof -
  assume abs: "startsWith h ''/''"
  then obtain cs where h: "h = CHR ''/'' # cs"
    by (cases h) (auto simp: startsWith_def)
  have np: "\<not> hasProtocol h"
    by (simp add: h hasProtocol_def is_letter_def)
  have nf: "\<not> startsWith h ''#''"
    by (simp add: h startsWith_def)
  define h1 where "h1 = (if endsWith h ''.md'' then take (length h - 3) h else h)"
  have "\<exists>ds. h1 = CHR ''/'' # ds"
  proof (cases "endsWith h ''.md''")
    case False
    then show ?thesis by (simp add: h1_def h)
  next
    case True
    then have len: "3 \<le> length h" and suffix: "drop (length h - 3) h = ''.md''"
      by (simp_all add: endsWith_def numeral_3_eq_3)
    have "length h \<noteq> 3"
    proof
      assume "length h = 3"
      with suffix have "h = ''.md''" by simp
      with h show False by simp
    qed
    with len have "0 < length h - 3" by simp
    then obtain n where "length h - 3 = Suc n"
      by (cases "length h - 3") simp_all
    then show ?thesis
      using True by (simp add: h1_def h)
  qed
  then obtain ds where h1: "h1 = CHR ''/'' # ds" ..
  have "link_href dir h = h1"
    using np nf h1 h unfolding link_href_def h1_def [symmetric] Let_def
    by (simp add: startsWith_def)
  then show ?thesis
    by (simp add: h1_def)
qed

text \<open>
  Claim C3. With the current directory \<open>blog\<close>, the link \<open>./other.md\<close> is rewritten to
  \<open>/blog/other\<close>, \<open>../docs/setup.md\<close> to \<open>/docs/setup\<close> and \<open>other-file\<close> to
  \<open>/blog/other-file\<close>; \<open>https://example.com\<close>, \<open>#section\<close> and the empty link are left
  as they are, and \<open>/already/absolute\<close> is kept, losing only a final \<open>.md\<close>. The other
  fields of the token reach the original renderer unchanged.
\<close>

theorem link_transformer_examples:
  "createLinkTransformer f ''blog'' (t\<lparr>href := ''./other.md''\<rparr>)
     = f (t\<lparr>href := ''/blog/other''\<rparr>)
   \<and> createLinkTransformer f ''blog'' (t\<lparr>href := ''../docs/setup.md''\<rparr>)
     = f (t\<lparr>href := ''/docs/setup''\<rparr>)
   \<and> createLinkTransformer f ''blog'' (t\<lparr>href := ''other-file''\<rparr>)
     = f (t\<lparr>href := ''/blog/other-file''\<rparr>)
   \<and> createLinkTransformer f ''blog'' (t\<lparr>href := ''https://example.com''\<rparr>)
     = f (t\<lparr>href := ''https://example.com''\<rparr>)
   \<and> createLinkTransformer f ''blog'' (t\<lparr>href := ''#section''\<rparr>)
     = f (t\<lparr>href := ''#section''\<rparr>)
   \<and> createLinkTransformer f ''blog'' (t\<lparr>href := []\<rparr>) = f (t\<lparr>href := []\<rparr>)
   \<and> createLinkTransformer f ''blog'' (t\<lparr>href := ''/already/absolute''\<rparr>)
     = f (t\<lparr>href := ''/already/absolute''\<rparr>)
   \<and> createLinkTransformer f ''blog'' (t\<lparr>href := ''/already/absolute.md''\<rparr>)
     = f (t\<lparr>href := ''/already/absolute''\<rparr>)"
proof -
  have 1: "link_href ''blog'' ''./other.md'' = ''/blog/other''"
    by (simp add: link_eval)
  have 2: "link_href ''blog'' ''../docs/setup.md'' = ''/docs/setup''"
    by (simp add: link_eval)
  have 3: "link_href ''blog'' ''other-file'' = ''/blog/other-file''"
    by (simp add: link_eval)
  have 4: "link_href ''blog'' ''https://example.com'' = ''https://example.com''"
    by (simp add: link_eval)
  have 5: "link_href ''blog'' ''#section'' = ''#section''"
    by (simp add: link_eval)
  have 6: "link_href ''blog'' [] = []"
    by (simp add: link_eval)
  have 7: "link_href ''blog'' ''/already/absolute'' = ''/already/absolute''"
    by (simp add: link_eval)
  have 8: "link_href ''blog'' ''/already/absolute.md'' = ''/already/absolute''"
    by (simp add: link_eval)
  show ?thesis
    by (simp add: createLinkTransformer_def 1 2 3 4 5 6 7 8)
qed

subsection \<open>Content cache\<close>

text \<open>
  Claim C6. Outside development mode a call on the cold cache scans the disk and, when
  the scan returns, stores its result; on the warm cache every call, one or many, returns
  the stored sequence whatever the disk holds by then, and leaves the cache as it is;
  \<open>clearContentCache\<close> makes the cache cold again, so that the next call is the first
  case again.
\<close>

theorem cache_machine:
  "getAllContent E False root None =
     (scanContentDirectory E root,
      case scanContentDirectory E root of Inl e \<Rightarrow> None | Inr c \<Rightarrow> Some c)
   \<and> getAllContent E False root' (Some c) = (Inr c, Some c)
   \<and> getAllContent_calls E False roots (Some c) = (replicate (length roots) (Inr c), Some c)
   \<and> clearContentCache cache = None"
proof -
  have warm: "\<And>r. getAllContent E False r (Some c) = (Inr c, Some c)"
    by (simp add: getAllContent_def)
  have "getAllContent_calls E False roots (Some c) = (replicate (length roots) (Inr c), Some c)"
    by (induction roots) (simp_all add: warm)
  moreover have "getAllContent E False root None =
     (scanContentDirectory E root,
      case scanContentDirectory E root of Inl e \<Rightarrow> None | Inr c \<Rightarrow> Some c)"
    by (simp add: getAllContent_def split: sum.splits)
  ultimately show ?thesis
    by (simp add: warm clearContentCache_def)
qed

text \<open>In development mode every call scans, and nothing is stored.\<close>

lemma development_mode_rescans:
  "getAllContent E True root cachedContent = (scanContentDirectory E root, None)"
  by (simp add: getAllContent_def split: sum.splits)


subsection \<open>Query by directory\<close>

text \<open>
  Claim C5. For a directory argument other than \<open>root\<close>, \<open>getContentByDirectory\<close> returns
  exactly the entries of the content whose directory is the argument or starts with the
  argument followed by \<open>/\<close>, in the order of the content.
\<close>

theorem by_directory_prefix:
  assumes "dir \<noteq> ''root''"
    and "getAllContent E isDev root cachedContent = (Inr allContent, cachedContent1)"
  shows "getContentByDirectory E isDev root cachedContent dir =
           (Inr (filter (\<lambda>entry. directory entry = dir
                                   \<or> startsWith (directory entry) (dir @ ''/'')) allContent),
            cachedContent1)"
proof -
  have "under_directory dir = (\<lambda>entry. directory entry = dir
                                   \<or> startsWith (directory entry) (dir @ ''/''))"
    by (rule ext) (simp add: under_directory_def)
  with assms show ?thesis
    by (simp add: getContentByDirectory_def contentByDirectory_def)
qed

text \<open>With the argument \<open>blog\<close>, the entry in \<open>blog/news\<close> is returned and the one in
  \<open>blog2\<close> is not.\<close>

theorem by_directory_prefix_witness:
  "getContentByDirectory sample_env False Missing
     (Some [sample_entry ''blog'' ''/blog/a'' [],
            sample_entry ''blog/news'' ''/blog/news/b'' [],
            sample_entry ''blog2'' ''/blog2/c'' [],
            sample_entry ''root'' ''/root/d'' []]) ''blog''
   = (Inr [sample_entry ''blog'' ''/blog/a'' [], sample_entry ''blog/news'' ''/blog/news/b'' []],
      Some [sample_entry ''blog'' ''/blog/a'' [],
            sample_entry ''blog/news'' ''/blog/news/b'' [],
            sample_entry ''blog2'' ''/blog2/c'' [],
            sample_entry ''root'' ''/root/d'' []])"
proof -
  define c where "c = [sample_entry ''blog'' ''/blog/a'' [],
            sample_entry ''blog/news'' ''/blog/news/b'' [],
            sample_entry ''blog2'' ''/blog2/c'' [],
            sample_entry ''root'' ''/root/d'' []]"
  have 1: "''blog'' \<noteq> ''root''" by simp
  have 2: "getAllContent sample_env False Missing (Some c) = (Inr c, Some c)"
    by (simp add: getAllContent_def)
  have "getContentByDirectory sample_env False Missing (Some c) ''blog'' =
           (Inr (filter (\<lambda>entry. directory entry = ''blog''
                                   \<or> startsWith (directory entry) (''blog'' @ ''/'')) c),
            Some c)"
    using 1 2 by (rule by_directory_prefix)
  also have "filter (\<lambda>entry. directory entry = ''blog''
                                   \<or> startsWith (directory entry) (''blog'' @ ''/'')) c
             = [sample_entry ''blog'' ''/blog/a'' [], sample_entry ''blog/news'' ''/blog/news/b'' []]"
    by (simp add: c_def sample_entry_def startsWith_def)
  finally show ?thesis
    unfolding c_def .
qed

subsection \<open>Template substitution\<close>

text \<open>A placeholder is found where \<open>{{\<close>, a name without \<open>}\<close> and \<open>}}\<close> follow each other.\<close>

lemma placeholder_at_match:
  assumes "name \<noteq> []" and "CHR ''}'' \<notin> set name"
  shows "placeholder_at (''{{'' @ name @ ''}}'' @ post) = Some (name, post)"
proof -
  have t: "takeWhile (\<lambda>c. c \<noteq> CHR ''}'') (name @ CHR ''}'' # CHR ''}'' # post) = name"
    using assms(2) by (induction name) auto
  have d: "dropWhile (\<lambda>c. c \<noteq> CHR ''}'') (name @ CHR ''}'' # CHR ''}'' # post)
             = CHR ''}'' # CHR ''}'' # post"
    using assms(2) by (induction name) auto
  show ?thesis
    using assms(1) by (simp add: placeholder_at_def startsWith_def t d)
qed

text \<open>Text in which no placeholder starts is copied to the output.\<close>

lemma process_no_placeholder:
  assumes "\<forall>i<length pre. placeholder_at (drop i (pre @ rest)) = None"
  shows "processTemplateVariables vars (pre @ rest) =
           (pre @ fst (processTemplateVariables vars rest),
            snd (processTemplateVariables vars rest))"
  using assms
proof (induction pre)
  case Nil
  then show ?case by simp
next
  case (Cons c pre)
  have here: "placeholder_at (c # pre @ rest) = None"
    using Cons.prems by (auto dest: spec [of _ 0])
  have "\<forall>i<length pre. placeholder_at (drop i (pre @ rest)) = None"
  proof (intro allI impI)
    fix i assume "i < length pre"
    then have "Suc i < length (c # pre)" by simp
    with Cons.prems have "placeholder_at (drop (Suc i) ((c # pre) @ rest)) = None"
      by blast
    then show "placeholder_at (drop i (pre @ rest)) = None" by simp
  qed
  with Cons.IH have "processTemplateVariables vars (pre @ rest) =
           (pre @ fst (processTemplateVariables vars rest),
            snd (processTemplateVariables vars rest))" .
  with here show ?case by simp
qed

text \<open>No placeholder starts in a text without an opening brace.\<close>

lemma no_brace_no_placeholder:
  assumes "CHR ''{'' \<notin> set pre"
  shows "\<forall>i<length pre. placeholder_at (drop i (pre @ rest)) = None"
proof (intro allI impI)
  fix i assume "i < length pre"
  then obtain c cs where d: "drop i pre = c # cs"
    by (cases "drop i pre") auto
  then have "c \<in> set pre"
    by (metis in_set_dropD list.set_intros(1))
  with assms have "c \<noteq> CHR ''{''" by auto
  then show "placeholder_at (drop i (pre @ rest)) = None"
    using d \<open>i < length pre\<close> by (simp add: placeholder_at_def startsWith_def)
qed

text \<open>
  Claim C8. Let \<open>{{name}}\<close> be the first placeholder of a text: no placeholder starts in
  the text \<open>pre\<close> before it. When the trimmed name is a key of the variable table, the
  output is \<open>pre\<close>, the value of the variable and the output for the rest of the text,
  with the warnings of the rest; when it is not, the placeholder is copied as it stands
  and the trimmed name is reported in a warning. The function returns a result on every
  input, so every placeholder of a text is treated this way in turn.
\<close>

theorem template_substitution:
  assumes "name \<noteq> []" and "CHR ''}'' \<notin> set name"
    and "\<forall>i<length pre. placeholder_at (drop i (pre @ ''{{'' @ name @ ''}}'' @ post)) = None"
  shows "processTemplateVariables vars (pre @ ''{{'' @ name @ ''}}'' @ post) =
           (case map_of vars (trim name) of
              Some v \<Rightarrow> (pre @ v @ fst (processTemplateVariables vars post),
                         snd (processTemplateVariables vars post))
            | None \<Rightarrow> (pre @ ''{{'' @ name @ ''}}'' @ fst (processTemplateVariables vars post),
                       trim name # snd (processTemplateVariables vars post)))"
proof -
  have m: "placeholder_at (CHR ''{'' # CHR ''{'' # name @ CHR ''}'' # CHR ''}'' # post) = Some (name, post)"
    using placeholder_at_match [OF assms(1,2), of post] by simp
  have "processTemplateVariables vars (''{{'' @ name @ ''}}'' @ post) =
           (case map_of vars (trim name) of
              Some v \<Rightarrow> (v @ fst (processTemplateVariables vars post),
                         snd (processTemplateVariables vars post))
            | None \<Rightarrow> (''{{'' @ name @ ''}}'' @ fst (processTemplateVariables vars post),
                       trim name # snd (processTemplateVariables vars post)))"
    by (simp add: m split: prod.splits option.splits)
  then show ?thesis
    using process_no_placeholder [OF assms(3), of vars]
    by (simp split: option.splits)
qed

text \<open>With \<open>site.name\<close> set to \<open>Acme\<close>, \<open>{{ site.name }}\<close> becomes \<open>Acme\<close> and
  \<open>{{unknown.key}}\<close> stays as it is, with one warning.\<close>

theorem template_substitution_witness:
  "processTemplateVariables [(''site.name'', ''Acme'')] ''Hi {{ site.name }}!''
     = (''Hi Acme!'', [])
   \<and> processTemplateVariables [(''site.name'', ''Acme'')] ''{{unknown.key}}''
     = (''{{unknown.key}}'', [''unknown.key''])"
proof -
  have n1: "'' site.name '' \<noteq> []" and b1: "CHR ''}'' \<notin> set '' site.name ''"
    by simp_all
  have p1: "\<forall>i<length ''Hi ''.
              placeholder_at (drop i (''Hi '' @ ''{{'' @ '' site.name '' @ ''}}'' @ ''!'')) = None"
    by (rule no_brace_no_placeholder) simp
  have n2: "''unknown.key'' \<noteq> []" and b2: "CHR ''}'' \<notin> set ''unknown.key''"
    by simp_all
  have p2: "\<forall>i<length ([] :: string).
              placeholder_at (drop i ([] @ ''{{'' @ ''unknown.key'' @ ''}}'' @ [])) = None"
    by simp
  have t: "trim '' site.name '' = ''site.name''" "trim ''unknown.key'' = ''unknown.key''"
    by (simp_all add: trim_def is_space_def)
  have r: "processTemplateVariables [(''site.name'', ''Acme'')] ''!'' = (''!'', [])"
    by (simp add: placeholder_at_def startsWith_def)
  from template_substitution [OF n1 b1 p1, of "[(''site.name'', ''Acme'')]"]
  have "processTemplateVariables [(''site.name'', ''Acme'')] ''Hi {{ site.name }}!''
          = (''Hi Acme!'', [])"
    by (simp add: t r del: processTemplateVariables.simps)
  moreover from template_substitution [OF n2 b2 p2, of "[(''site.name'', ''Acme'')]"]
  have "processTemplateVariables [(''site.name'', ''Acme'')] ''{{unknown.key}}''
          = (''{{unknown.key}}'', [''unknown.key''])"
    by (simp add: t)
  ultimately show ?thesis ..
qed

text \<open>
  A placeholder is what the scan finds: in \<open>{{{site.name}}}\<close> it starts at the first
  brace and its name is \<open>{site.name\<close>, which is no variable.
\<close>

lemma template_nested_braces:
  "processTemplateVariables [(''site.name'', ''Acme'')] ''{{{site.name}}}''
     = (''{{{site.name}}}'', [''{site.name''])"
  by (simp add: placeholder_at_def startsWith_def trim_def is_space_def)

subsection \<open>Heading stripper\<close>

text \<open>A text without \<open><h1\<close> is returned as it is.\<close>

lemma removeFirstH1_no_h1:
  "\<not> contains s ''<h1'' \<Longrightarrow> removeFirstH1 s = s"
  by (induction s) (auto simp: h1_at_def)

text \<open>The lazy part of the pattern ends at the first \<open></h1>\<close> of the line.\<close>

lemma h1_close_match:
  assumes "\<not> contains inner ''</h1>''" and "\<forall>c\<in>set inner. \<not> is_line_terminator c"
  shows "h1_close (inner @ ''</h1>'' @ post) = Some post"
  using assms
proof (induction inner)
  case Nil
  then show ?case by (simp add: startsWith_def)
next
  case (Cons c inner)
  have ns: "\<not> startsWith (c # inner) ''</h1>''" and ni: "\<not> contains inner ''</h1>''"
    using Cons.prems(1) by auto
  have "\<not> startsWith (c # inner @ ''</h1>'' @ post) ''</h1>''"
  proof
    assume a: "startsWith (c # inner @ ''</h1>'' @ post) ''</h1>''"
    show False
    proof (cases "4 \<le> length inner")
      case True
      then have "take 5 (c # inner @ ''</h1>'' @ post) = take 5 (c # inner)"
        by (simp add: numeral_eq_Suc)
      with a ns show False by (simp add: startsWith_def)
    next
      case False
      then consider "inner = []" | x1 where "inner = [x1]" | x1 x2 where "inner = [x1, x2]"
        | x1 x2 x3 where "inner = [x1, x2, x3]"
        by (cases inner; cases "tl inner"; cases "tl (tl inner)"; cases "tl (tl (tl inner))") auto
      then show False
        using a by cases (auto simp: startsWith_def)
    qed
  qed
  moreover have "\<not> is_line_terminator c" using Cons.prems(2) by simp
  moreover have "h1_close (inner @ ''</h1>'' @ post) = Some post"
    using Cons.IH ni Cons.prems(2) by simp
  ultimately show ?case by simp
qed

lemma h1_at_match:
  assumes "CHR ''>'' \<notin> set attrs"
    and "\<not> contains inner ''</h1>''" and "\<forall>c\<in>set inner. \<not> is_line_terminator c"
  shows "h1_at (''<h1'' @ attrs @ ''>'' @ inner @ ''</h1>'' @ post) = Some post"
proof -
  have "dropWhile (\<lambda>c. c \<noteq> CHR ''>'') (attrs @ CHR ''>'' # inner @ ''</h1>'' @ post)
          = CHR ''>'' # inner @ ''</h1>'' @ post"
    using assms(1) by (induction attrs) auto
  then show ?thesis
    using h1_close_match [OF assms(2,3), of post]
    by (simp add: h1_at_def startsWith_def)
qed

text \<open>No match starts in a text without \<open><h1\<close>, whatever tag follows it.\<close>

lemma h1_at_before:
  assumes "\<not> contains (c # pre) ''<h1''"
  shows "h1_at (c # pre @ CHR ''<'' # rest) = None"
proof -
  have ns: "\<not> startsWith (c # pre) ''<h1''"
    using assms by simp
  have "\<not> startsWith (c # pre @ CHR ''<'' # rest) ''<h1''"
  proof (cases pre)
    case Nil
    then show ?thesis by (simp add: startsWith_def)
  next
    case (Cons d pre')
    then show ?thesis
      using ns by (cases pre') (auto simp: startsWith_def)
  qed
  then show ?thesis by (simp add: h1_at_def)
qed

lemma removeFirstH1_first:
  assumes "\<not> contains pre ''<h1''" and "h1_at (CHR ''<'' # rest) = Some post"
  shows "removeFirstH1 (pre @ CHR ''<'' # rest) = pre @ post"
  using assms(1)
proof (induction pre)
  case Nil
  then show ?case using assms(2) by simp
next
  case (Cons c pre)
  then have "\<not> contains pre ''<h1''" by auto
  with Cons.IH have "removeFirstH1 (pre @ CHR ''<'' # rest) = pre @ post" .
  moreover have "h1_at (c # pre @ CHR ''<'' # rest) = None"
    using h1_at_before [OF Cons.prems] .
  ultimately show ?case by simp
qed

text \<open>
  Claim C9, amended. Take an \<open>h1\<close> element whose inner text has no line terminator and no
  \<open></h1>\<close>, with \<open>pre\<close> before it, in which \<open><h1\<close> does not occur, and \<open>post\<close> behind it.
  Stripping removes this element and nothing else: \<open>pre\<close> and \<open>post\<close> are kept, together
  with any further \<open>h1\<close> element in \<open>post\<close>. When \<open><h1\<close> does not occur in what is left
  either, which asks more than that it occurs neither in \<open>pre\<close> nor in \<open>post\<close>, stripping
  twice gives the same as stripping once.
\<close>

theorem first_h1_removed:
  assumes "\<not> contains pre ''<h1''" and "CHR ''>'' \<notin> set attrs"
    and "\<not> contains inner ''</h1>''" and "\<forall>c\<in>set inner. \<not> is_line_terminator c"
  shows "removeFirstH1 (pre @ ''<h1'' @ attrs @ ''>'' @ inner @ ''</h1>'' @ post) = pre @ post
    \<and> (\<not> contains (pre @ post) ''<h1'' \<longrightarrow>
          removeFirstH1 (removeFirstH1 (pre @ ''<h1'' @ attrs @ ''>'' @ inner @ ''</h1>'' @ post))
            = removeFirstH1 (pre @ ''<h1'' @ attrs @ ''>'' @ inner @ ''</h1>'' @ post))"
proof -
  have "h1_at (CHR ''<'' # ''h1'' @ attrs @ ''>'' @ inner @ ''</h1>'' @ post) = Some post"
    using h1_at_match [OF assms(2,3,4), of post] by simp
  from removeFirstH1_first [OF assms(1) this]
  have 1: "removeFirstH1 (pre @ ''<h1'' @ attrs @ ''>'' @ inner @ ''</h1>'' @ post) = pre @ post"
    by simp
  then show ?thesis
    by (simp add: removeFirstH1_no_h1)
qed

theorem first_h1_removed_witness:
  "removeFirstH1 ''<p>a</p><h1 id=1>Title</h1><h1>Two</h1>'' = ''<p>a</p><h1>Two</h1>''
   \<and> removeFirstH1 (removeFirstH1 ''<p>a</p><h1 id=1>Title</h1><p>b</p>'')
       = removeFirstH1 ''<p>a</p><h1 id=1>Title</h1><p>b</p>''"
proof -
  have a: "\<not> contains ''<p>a</p>'' ''<h1''" by (simp add: startsWith_def)
  have b: "CHR ''>'' \<notin> set '' id=1''" by simp
  have c: "\<not> contains ''Title'' ''</h1>''" by (simp add: startsWith_def)
  have d: "\<forall>c\<in>set ''Title''. \<not> is_line_terminator c" by (simp add: is_line_terminator_def)
  have e: "\<not> contains ''<p>a</p><p>b</p>'' ''<h1''" by (simp add: startsWith_def)
  note first = first_h1_removed [OF a b c d, of "''<h1>Two</h1>''", unfolded append.simps]
  note twice = first_h1_removed [OF a b c d, of "''<p>b</p>''", unfolded append.simps]
  show ?thesis
    using first twice e by blast
qed

text \<open>
  The claim as stated fails where the text around the element closes up to a new
  heading: in the first text below \<open><h1\<close> occurs once and the pattern matches once, and
  the second pass removes what the first one left. The second text has one heading and,
  in a comment before it, the markup of another; the first pass takes the comment's, the
  second the heading. In the third text the first heading runs over two lines: the
  pattern skips it and the second heading is removed, not the first.
\<close>

theorem h1_twice_counterexample:
  "occurrences ''<h1'' ''<h<h1>x</h1>1>y</h1>'' = 1
   \<and> h1_count ''<h<h1>x</h1>1>y</h1>'' = 1
   \<and> removeFirstH1 ''<h<h1>x</h1>1>y</h1>'' = ''<h1>y</h1>''
   \<and> removeFirstH1 (removeFirstH1 ''<h<h1>x</h1>1>y</h1>'') = []
   \<and> removeFirstH1 (removeFirstH1 ''<h<h1>x</h1>1>y</h1>'')
       \<noteq> removeFirstH1 ''<h<h1>x</h1>1>y</h1>''
   \<and> removeFirstH1 ''<!-- <h1>old</h1> --><h1>Real</h1>'' = ''<!--  --><h1>Real</h1>''
   \<and> removeFirstH1 (removeFirstH1 ''<!-- <h1>old</h1> --><h1>Real</h1>'') = ''<!--  -->''
   \<and> removeFirstH1 (''<h1>a'' @ [CHR 0x0A] @ ''b</h1><h1>c</h1>'')
       = ''<h1>a'' @ [CHR 0x0A] @ ''b</h1>''"
proof -
  have 1: "occurrences ''<h1'' ''<h<h1>x</h1>1>y</h1>'' = 1"
    by (simp add: startsWith_def)
  have 2: "removeFirstH1 ''<h<h1>x</h1>1>y</h1>'' = ''<h1>y</h1>''"
    by (simp add: startsWith_def h1_at_def is_line_terminator_def)
  have 6: "h1_count ''<h<h1>x</h1>1>y</h1>'' = 1"
    by (simp add: startsWith_def h1_at_def is_line_terminator_def)
  have 3: "removeFirstH1 ''<h1>y</h1>'' = []"
    by (simp add: startsWith_def h1_at_def is_line_terminator_def)
  have 4: "removeFirstH1 ''<!-- <h1>old</h1> --><h1>Real</h1>'' = ''<!--  --><h1>Real</h1>''"
    by (simp add: startsWith_def h1_at_def is_line_terminator_def)
  have 5: "removeFirstH1 ''<!--  --><h1>Real</h1>'' = ''<!--  -->''"
    by (simp add: startsWith_def h1_at_def is_line_terminator_def)
  have 7: "removeFirstH1 (''<h1>a'' @ [CHR 0x0A] @ ''b</h1><h1>c</h1>'')
             = ''<h1>a'' @ [CHR 0x0A] @ ''b</h1>''"
    by (simp add: startsWith_def h1_at_def is_line_terminator_def)
  show ?thesis
    by (simp only: 1 2 3 4 5 6 7) simp
qed

subsection \<open>Directory scanner\<close>

lemmas scan_eval = scanContentDirectory_def scanFile_def sample_env_def endsWith_def
  startsWith_def slashes_def backslash_def path_join_def path_normalize_def finalMetadata_def
  spread_def processMetadata_def or_else_def truthy_def obj_get_def formatTitle_def
  capitalize_def toUpperCase_def createLinkTransformer_def h1_at_def placeholder_at_def Let_def

lemma obj_get_obj_set:
  "obj_get (obj_set obj k v) k' = (if k' = k then Some v else obj_get obj k')"
  by (induction obj) (auto simp: obj_get_def)

text \<open>In \<open>{...defaults, ...obj}\<close> a property of \<open>obj\<close> wins over the default.\<close>

lemma obj_get_spread:
  "obj_get (spread defaults obj) k =
     (case map_of (rev obj) k of Some v \<Rightarrow> Some v | None \<Rightarrow> obj_get defaults k)"
  unfolding spread_def
proof (induction obj arbitrary: defaults)
  case Nil
  then show ?case by simp
next
  case (Cons p obj)
  obtain k' v' where p: "p = (k', v')" by (cases p)
  show ?case
    by (simp add: p Cons.IH obj_get_obj_set map_add_def split: option.splits)
qed

text \<open>
  The title of an entry is the front-matter \<open>title\<close> whenever the front matter has the
  field, whatever its value, and the formatted slug when it has not: the spread writes
  the field over the default that \<open>||\<close> had chosen.
\<close>

lemma finalMetadata_title:
  assumes "distinct (map fst processedMetadata)"
  shows "obj_get (finalMetadata slug' processedMetadata) ''title'' =
           Some (case obj_get processedMetadata ''title'' of
                   Some v \<Rightarrow> v
                 | None \<Rightarrow> JStr (formatTitle slug'))"
proof -
  have r: "map_of (rev processedMetadata) = map_of processedMetadata"
    using assms by (subst map_of_inject_set) (simp_all add: rev_map [symmetric])
  have "obj_get (finalMetadata slug' processedMetadata) ''title'' =
          (case map_of processedMetadata ''title'' of
             Some v \<Rightarrow> Some v
           | None \<Rightarrow> Some (or_else (obj_get processedMetadata ''title'') (JStr (formatTitle slug'))))"
    unfolding finalMetadata_def obj_get_spread r
    by (simp add: obj_get_def split: option.splits)
  also have "\<dots> = Some (case obj_get processedMetadata ''title'' of
                   Some v \<Rightarrow> v
                 | None \<Rightarrow> JStr (formatTitle slug'))"
    by (simp add: obj_get_def or_else_def truthy_def split: option.splits)
  finally show ?thesis .
qed

text \<open>
  Claim C1 says that \<open>metadata.title\<close> is never empty, also for a front-matter title that
  is the empty string. The scan of a folder with the one file \<open>post.md\<close>, whose front
  matter is \<open>title: ""\<close>, returns an entry with the empty title, not \<open>Post\<close>.
\<close>

theorem scan_keeps_empty_title:
  assumes "matter E raw = Some ([(''title'', JStr [])], body)"
  shows "\<exists>entry. scanContentDirectory E (Folder [File ''post.md'' (Some raw)]) = Inr [entry]
           \<and> slug entry = ''post'' \<and> metadata entry =
               [(''title'', JStr []), (''description'', JStr []), (''date'', JNull),
                (''author'', JNull)]"
  using assms
  by (simp add: scanContentDirectory_def scanFile_def endsWith_def startsWith_def
      finalMetadata_def spread_def processMetadata_def or_else_def truthy_def obj_get_def Let_def)

theorem scan_keeps_empty_title_witness:
  "matter sample_env ''title'' = Some ([(''title'', JStr [])], [])
   \<and> (\<exists>entry. scanContentDirectory sample_env (Folder [File ''post.md'' (Some ''title'')])
                 = Inr [entry]
           \<and> slug entry = ''post'' \<and> metadata entry =
               [(''title'', JStr []), (''description'', JStr []), (''date'', JNull),
                (''author'', JNull)])"
proof -
  have m: "matter sample_env ''title'' = Some ([(''title'', JStr [])], [])"
    by (simp add: sample_env_def)
  from scan_keeps_empty_title [OF m] m show ?thesis by blast
qed

text \<open>
  Claim C2 says that the argument \<open>root\<close> selects the files directly in the content root.
  The scanner gives such a file the directory \<open>''\<close>, and \<open>getContentByDirectory\<close> compares
  with the string \<open>root\<close>: for a content root holding \<open>index.md\<close> and the folder \<open>root\<close> with
  \<open>a.md\<close>, the query returns the file of the folder and not \<open>index.md\<close>.
\<close>

theorem root_query_returns_subdirectory:
  "\<exists>home nested.
      scanContentDirectory sample_env
        (Folder [File ''index.md'' (Some ''Home''), Dir ''root'' [File ''a.md'' (Some ''A'')]])
        = Inr [home, nested]
      \<and> path home = ''index.md'' \<and> directory home = []
      \<and> path nested = ''root/a.md'' \<and> directory nested = ''root''
      \<and> getContentByDirectory sample_env False
           (Folder [File ''index.md'' (Some ''Home''), Dir ''root'' [File ''a.md'' (Some ''A'')]])
           None ''root''
         = (Inr [nested], Some [home, nested])"
  by (simp add: getContentByDirectory_def getAllContent_def contentByDirectory_def scan_eval)

text \<open>
  Claim C4 says that no two files of a scan have the same url. The slug is the file
  name with its first \<open>.md\<close> removed, which need not be the extension: the files
  \<open>a.mdx.md\<close> and \<open>ax.md.md\<close> of one folder both get the url \<open>/ax.md\<close>.
\<close>

theorem scan_url_collision:
  "\<exists>e1 e2.
      scanContentDirectory sample_env
        (Folder [File ''a.mdx.md'' (Some ''one''), File ''ax.md.md'' (Some ''two'')])
        = Inr [e1, e2]
      \<and> path e1 = ''a.mdx.md'' \<and> path e2 = ''ax.md.md''
      \<and> url e1 = ''/ax.md'' \<and> url e2 = ''/ax.md''"
  by (simp add: scan_eval)


text \<open>
  Apart from that slip the claim holds: in a content folder with plain names no two
  entries of a scan have the same url.
\<close>

lemma split_on_not_Nil [simp]: "split_on sep s \<noteq> []"
  by (induction s) (auto split: list.splits)

lemma split_on_no_sep: "sep \<notin> set s \<Longrightarrow> split_on sep s = [s]"
  by (induction s) auto

lemma split_on_append_sep:
  "sep \<notin> set s \<Longrightarrow> split_on sep (s @ sep # t) = s # split_on sep t"
proof (induction s)
  case Nil
  show ?case by (cases "split_on sep t") auto
next
  case (Cons c s)
  then show ?case by auto
qed

lemma split_on_join:
  assumes "L \<noteq> []" and "\<forall>s\<in>set L. CHR ''/'' \<notin> set s"
  shows "split_on CHR ''/'' (join ''/'' L) = L"
  using assms
proof (induction L)
  case Nil
  then show ?case by simp
next
  case (Cons x L)
  show ?case
  proof (cases L)
    case Nil
    with Cons.prems show ?thesis by (simp add: split_on_no_sep)
  next
    case (Cons y ys)
    with Cons.IH Cons.prems have "split_on CHR ''/'' (join ''/'' L) = L" by simp
    moreover have "CHR ''/'' \<notin> set x" using Cons.prems by simp
    ultimately show ?thesis
      using split_on_append_sep [of "CHR ''/''" x "join ''/'' L"] Cons by simp
  qed
qed

lemma join_snoc:
  "L \<noteq> [] \<Longrightarrow> join sep (L @ [x]) = join sep L @ sep @ x"
proof (induction L)
  case Nil
  then show ?case by simp
next
  case (Cons y L)
  then show ?case by (cases L) auto
qed

lemma normalizeString_plain:
  assumes "\<forall>s\<in>set L. plain_name s"
  shows "normalizeString b res L = res @ L"
  using assms by (induction L arbitrary: res) (auto simp: plain_name_def)

lemma join_plain_ends:
  assumes "L \<noteq> []" and "\<forall>s\<in>set L. plain_name s"
  shows "join ''/'' L \<noteq> [] \<and> hd (join ''/'' L) \<noteq> CHR ''/'' \<and> last (join ''/'' L) \<noteq> CHR ''/''"
  using assms
proof (induction L)
  case Nil
  then show ?case by simp
next
  case (Cons x L)
  have px: "x \<noteq> []" "CHR ''/'' \<notin> set x"
    using Cons.prems(2) by (simp_all add: plain_name_def)
  then have "hd x \<in> set x" "last x \<in> set x"
    by simp_all
  with px have x: "x \<noteq> []" "hd x \<noteq> CHR ''/''" "last x \<noteq> CHR ''/''"
    by metis+
  show ?case
  proof (cases L)
    case Nil
    with x show ?thesis by simp
  next
    case (Cons y ys)
    with Cons.IH Cons.prems have "join ''/'' L \<noteq> []" "last (join ''/'' L) \<noteq> CHR ''/''"
      by simp_all
    with x Cons show ?thesis by simp
  qed
qed

lemma path_normalize_plain:
  assumes "L \<noteq> []" and "\<forall>s\<in>set L. plain_name s"
  shows "path_normalize (join ''/'' L) = join ''/'' L"
proof -
  have "\<forall>s\<in>set L. CHR ''/'' \<notin> set s"
    using assms(2) by (simp add: plain_name_def)
  with assms(1) have "split_on CHR ''/'' (join ''/'' L) = L"
    by (rule split_on_join)
  moreover have "normalizeString True [] L = L"
    using normalizeString_plain [OF assms(2), of True "[]"] by simp
  ultimately show ?thesis
    using join_plain_ends [OF assms] by (simp add: path_normalize_def Let_def)
qed

lemma path_join_plain:
  assumes "\<forall>s\<in>set L. plain_name s" and "plain_name n"
  shows "path_join [join ''/'' L, n] = join ''/'' (L @ [n])"
proof (cases L)
  case Nil
  have "path_normalize (join ''/'' [n]) = join ''/'' [n]"
    using assms(2) by (intro path_normalize_plain) simp_all
  with Nil assms(2) show ?thesis
    by (simp add: path_join_def plain_name_def)
next
  case (Cons x xs)
  then have ne: "L \<noteq> []" by simp
  have "path_normalize (join ''/'' (L @ [n])) = join ''/'' (L @ [n])"
    using assms by (intro path_normalize_plain) auto
  moreover have "join ''/'' L \<noteq> []" using join_plain_ends [OF ne assms(1)] by simp
  moreover have "n \<noteq> []" using assms(2) by (simp add: plain_name_def)
  ultimately show ?thesis
    by (simp add: path_join_def join_snoc [OF ne])
qed

lemma slashes_plain: "backslash \<notin> set s \<Longrightarrow> slashes s = s"
  by (induction s) (auto simp: slashes_def)

lemma set_join: "set (join sep L) \<subseteq> set sep \<union> \<Union> (set ` set L)"
  by (induction sep L rule: join.induct) auto

lemma scanFile_url:
  assumes "scanFile E rel n file = Inr e"
  shows "url e = (if rel \<noteq> [] then slashes (''/'' @ rel @ ''/'' @ replace_first ''.md'' [] n)
                  else ''/'' @ replace_first ''.md'' [] n)"
  using assms by (auto simp: scanFile_def Let_def split: option.splits prod.splits)

lemma scanFile_url_plain:
  assumes segs: "\<forall>s\<in>set segs. plain_name s" and n: "plain_name n" "plain_markdown_name n"
    and e: "scanFile E (join ''/'' segs) n file = Inr e"
  shows "url e = ''/'' @ join ''/'' (segs @ [take (length n - 3) n])"
proof -
  define stem where "stem = take (length n - 3) n"
  have slug: "replace_first ''.md'' [] n = stem"
    using n(2) by (simp add: plain_markdown_name_def stem_def)
  have bs: "backslash \<notin> set stem"
    using n(1) set_take_subset [of "length n - 3" n] by (auto simp: plain_name_def stem_def)
  show ?thesis
  proof (cases segs)
    case Nil
    with scanFile_url [OF e] slug show ?thesis
      by (simp add: stem_def)
  next
    case (Cons x xs)
    then have ne: "segs \<noteq> []" by simp
    have rel: "join ''/'' segs \<noteq> []"
      using join_plain_ends [OF ne segs] by simp
    have "backslash \<notin> set (join ''/'' segs)"
      using set_join [of "''/''" segs] segs by (auto simp: plain_name_def backslash_def)
    with bs have "backslash \<notin> set (''/'' @ join ''/'' segs @ ''/'' @ stem)"
      by (simp add: backslash_def)
    then have "slashes (''/'' @ join ''/'' segs @ ''/'' @ stem) = ''/'' @ join ''/'' segs @ ''/'' @ stem"
      by (rule slashes_plain)
    with scanFile_url [OF e] slug rel show ?thesis
      by (simp add: join_snoc [OF ne] stem_def)
  qed
qed

lemma scan_urls:
  "\<forall>s\<in>set segs. plain_name s \<Longrightarrow> plain_tree ns \<Longrightarrow> rel = join ''/'' segs \<Longrightarrow>
     scanDir E rel ns acc = Inr r \<Longrightarrow>
     map url r = map url acc @ map (\<lambda>k. ''/'' @ join ''/'' k) (url_keys segs ns)"
  "\<forall>s\<in>set segs. plain_name s \<Longrightarrow> plain_node n \<Longrightarrow> rel = join ''/'' segs \<Longrightarrow>
     scanEntry E rel n acc = Inr r \<Longrightarrow>
     map url r = map url acc @ map (\<lambda>k. ''/'' @ join ''/'' k) (url_keys_node segs n)"
proof (induction E rel ns acc and E rel n acc arbitrary: segs r and segs r
    rule: scanDir_scanEntry.induct)
  case (1 E relativePath contentEntries)
  then show ?case by simp
next
  case (2 E relativePath n ns contentEntries)
  from "2.prems"(4) obtain mid where mid: "scanEntry E relativePath n contentEntries = Inr mid"
    and rest: "scanDir E relativePath ns mid = Inr r"
    by (auto split: sum.splits)
  have pn: "plain_node n" and pt: "plain_tree ns"
    using "2.prems"(2) by simp_all
  have "map url mid = map url contentEntries
          @ map (\<lambda>k. ''/'' @ join ''/'' k) (url_keys_node segs n)"
    using "2.IH"(1) [OF "2.prems"(1) pn "2.prems"(3) mid] .
  moreover have "map url r = map url mid @ map (\<lambda>k. ''/'' @ join ''/'' k) (url_keys segs ns)"
    using "2.IH"(2) [OF mid "2.prems"(1) pt "2.prems"(3) rest] .
  ultimately show ?case by simp
next
  case (3 E relativePath entry children contentEntries)
  have pe: "plain_name entry" and pc: "plain_tree children"
    using "3.prems"(2) by simp_all
  have segs': "\<forall>s\<in>set (segs @ [entry]). plain_name s"
    using "3.prems"(1) pe by simp
  have rel': "path_join [relativePath, entry] = join ''/'' (segs @ [entry])"
    unfolding "3.prems"(3) using "3.prems"(1) pe by (rule path_join_plain)
  have "scanDir E (path_join [relativePath, entry]) children contentEntries = Inr r"
    using "3.prems"(4) by simp
  from "3.IH" [OF segs' pc rel' this] show ?case by simp
next
  case (4 E relativePath entry f contentEntries)
  show ?case
  proof (cases "endsWith entry ''.md''")
    case False
    with "4.prems"(4) show ?thesis by simp
  next
    case True
    with "4.prems"(4) obtain e where e: "scanFile E relativePath entry f = Inr e"
      and r: "r = contentEntries @ [e]"
      by (auto split: sum.splits)
    have "plain_name entry" "plain_markdown_name entry"
      using "4.prems"(2) True by simp_all
    from scanFile_url_plain [OF "4.prems"(1) this e [unfolded "4.prems"(3)]]
    show ?thesis using True r by simp
  qed
next
  case (5 E relativePath entry contentEntries)
  then show ?case by simp
qed

text \<open>Every key below a directory extends the path of the directory.\<close>

lemma url_keys_extend:
  "k \<in> set (url_keys segs ns) \<Longrightarrow> take (length segs) k = segs \<and> length segs < length k"
  "k \<in> set (url_keys_node segs n) \<Longrightarrow> take (length segs) k = segs \<and> length segs < length k"
proof (induction segs ns and segs n rule: url_keys_url_keys_node.induct)
  case (3 segs d children)
  then have "take (length (segs @ [d])) k = segs @ [d]" and "length (segs @ [d]) < length k"
    by simp_all
  then have "take (length segs) (take (Suc (length segs)) k) = take (length segs) (segs @ [d])"
    by simp
  then have "take (length segs) k = segs"
    by (simp add: min_def)
  with \<open>length (segs @ [d]) < length k\<close> show ?case by simp
qed (auto split: if_splits)

lemma url_keys_node_tag:
  assumes "k \<in> set (url_keys_node segs n)"
  shows "(k ! length segs, length k = Suc (length segs)) = key_tag n"
proof (cases n)
  case (Dir d children)
  with assms have k: "k \<in> set (url_keys (segs @ [d]) children)" by simp
  from url_keys_extend(1) [OF k]
  have t: "take (Suc (length segs)) k = segs @ [d]" and l: "Suc (length segs) < length k"
    by simp_all
  have "k ! length segs = take (Suc (length segs)) k ! length segs"
    by simp
  also have "\<dots> = d" by (simp add: t)
  finally show ?thesis using l Dir by simp
next
  case (File f c)
  with assms show ?thesis by (auto split: if_splits)
next
  case (Special f)
  with assms show ?thesis by simp
qed

lemma md_stem_inject:
  assumes "endsWith a ''.md''" and "endsWith b ''.md''"
    and "take (length a - 3) a = take (length b - 3) b"
  shows "a = b"
proof -
  have "a = take (length a - 3) a @ ''.md''"
    using assms(1) append_take_drop_id [of "length a - 3" a]
    by (simp add: endsWith_def numeral_3_eq_3)
  moreover have "b = take (length b - 3) b @ ''.md''"
    using assms(2) append_take_drop_id [of "length b - 3" b]
    by (simp add: endsWith_def numeral_3_eq_3)
  ultimately show ?thesis using assms(3) by metis
qed

lemma url_keys_siblings:
  assumes "entry_name n \<noteq> entry_name m"
  shows "set (url_keys_node segs n) \<inter> set (url_keys_node segs m) = {}"
proof (rule ccontr)
  assume "set (url_keys_node segs n) \<inter> set (url_keys_node segs m) \<noteq> {}"
  then obtain k where kn: "k \<in> set (url_keys_node segs n)" and km: "k \<in> set (url_keys_node segs m)"
    by blast
  from url_keys_node_tag [OF kn] url_keys_node_tag [OF km]
  have tag: "key_tag n = key_tag m" by simp
  show False
  proof (cases n)
    case (Dir d cs)
    with tag assms show False by (cases m) auto
  next
    case n: (File f c)
    show False
    proof (cases m)
      case (Dir d cs)
      with tag n show False by simp
    next
      case m: (File g c')
      from kn n have "endsWith f ''.md''" by (auto split: if_splits)
      moreover from km m have "endsWith g ''.md''" by (auto split: if_splits)
      moreover from tag n m have "take (length f - 3) f = take (length g - 3) g" by simp
      ultimately have "f = g" by (rule md_stem_inject)
      with assms n m show False by simp
    next
      case (Special g)
      with km show False by simp
    qed
  next
    case (Special f)
    with kn show False by simp
  qed
qed

lemma url_keys_member:
  "k \<in> set (url_keys segs ns) \<Longrightarrow> \<exists>m\<in>set ns. k \<in> set (url_keys_node segs m)"
  by (induction ns) auto

lemma url_keys_distinct:
  "plain_tree ns \<Longrightarrow> distinct (url_keys segs ns)"
  "plain_node n \<Longrightarrow> distinct (url_keys_node segs n)"
proof (induction segs ns and segs n rule: url_keys_url_keys_node.induct)
  case (1 segs)
  then show ?case by simp
next
  case (2 segs n ns)
  have pn: "plain_node n" and pt: "plain_tree ns" and fresh: "entry_name n \<notin> entry_name ` set ns"
    using "2.prems" by simp_all
  have "set (url_keys_node segs n) \<inter> set (url_keys segs ns) = {}"
  proof (rule ccontr)
    assume "set (url_keys_node segs n) \<inter> set (url_keys segs ns) \<noteq> {}"
    then obtain k where kn: "k \<in> set (url_keys_node segs n)" and "k \<in> set (url_keys segs ns)"
      by blast
    then obtain m where m: "m \<in> set ns" and km: "k \<in> set (url_keys_node segs m)"
      using url_keys_member by blast
    from m fresh have "entry_name n \<noteq> entry_name m" by auto
    from url_keys_siblings [OF this, of segs] kn km show False by blast
  qed
  with "2.IH"(1) [OF pn] "2.IH"(2) [OF pt] show ?case by simp
next
  case (3 segs d children)
  then show ?case by simp
next
  case (4 segs n c)
  then show ?case by simp
next
  case (5 segs n)
  then show ?case by simp
qed

lemma url_keys_segments:
  "\<forall>s\<in>set segs. CHR ''/'' \<notin> set s \<Longrightarrow> plain_tree ns \<Longrightarrow> k \<in> set (url_keys segs ns) \<Longrightarrow>
     \<forall>s\<in>set k. CHR ''/'' \<notin> set s"
  "\<forall>s\<in>set segs. CHR ''/'' \<notin> set s \<Longrightarrow> plain_node n \<Longrightarrow> k \<in> set (url_keys_node segs n) \<Longrightarrow>
     \<forall>s\<in>set k. CHR ''/'' \<notin> set s"
proof (induction segs ns and segs n rule: url_keys_url_keys_node.induct)
  case (1 segs)
  then show ?case by simp
next
  case (2 segs n ns)
  from "2.prems"(3) consider "k \<in> set (url_keys_node segs n)" | "k \<in> set (url_keys segs ns)"
    by auto
  then show ?case
  proof cases
    case 1
    with "2.IH"(1) "2.prems"(1,2) show ?thesis by simp
  next
    case 2
    with "2.IH"(2) "2.prems"(1,2) show ?thesis by simp
  qed
next
  case (3 segs d children)
  have "\<forall>s\<in>set (segs @ [d]). CHR ''/'' \<notin> set s"
    using "3.prems"(1,2) by (simp add: plain_name_def)
  with "3.IH" "3.prems"(2,3) show ?case by simp
next
  case (4 segs n c)
  from "4.prems"(3) have k: "k = segs @ [take (length n - 3) n]"
    by (auto split: if_splits)
  have "CHR ''/'' \<notin> set (take (length n - 3) n)"
    using "4.prems"(2) set_take_subset [of "length n - 3" n] by (auto simp: plain_name_def)
  with "4.prems"(1) k show ?case by simp
next
  case (5 segs n)
  then show ?case by simp
qed

theorem scan_urls_distinct:
  assumes "plain_tree ns" and "scanContentDirectory E (Folder ns) = Inr es"
  shows "distinct (map url es)"
proof -
  have scan: "scanDir E (join ''/'' []) ns [] = Inr es"
    using assms(2) by (simp add: scanContentDirectory_def)
  have "map url es = map url [] @ map (\<lambda>k. ''/'' @ join ''/'' k) (url_keys [] ns)"
    using scan_urls(1) [OF _ assms(1) refl scan] by simp
  then have urls: "map url es = map (\<lambda>k. ''/'' @ join ''/'' k) (url_keys [] ns)"
    by simp
  have "inj_on (\<lambda>k. ''/'' @ join ''/'' k) (set (url_keys [] ns))"
  proof (rule inj_onI)
    fix k1 k2
    assume k1: "k1 \<in> set (url_keys [] ns)" and k2: "k2 \<in> set (url_keys [] ns)"
      and eq: "''/'' @ join ''/'' k1 = ''/'' @ join ''/'' k2"
    have no_segs: "\<forall>s\<in>set ([] :: string list). CHR ''/'' \<notin> set s"
      by simp
    have f1: "\<forall>s\<in>set k1. CHR ''/'' \<notin> set s"
      using no_segs assms(1) k1 by (rule url_keys_segments(1))
    have f2: "\<forall>s\<in>set k2. CHR ''/'' \<notin> set s"
      using no_segs assms(1) k2 by (rule url_keys_segments(1))
    have n1: "k1 \<noteq> []" and n2: "k2 \<noteq> []"
      using url_keys_extend(1) [OF k1] url_keys_extend(1) [OF k2] by auto
    have "k1 = split_on CHR ''/'' (join ''/'' k1)"
      using split_on_join [OF n1 f1] by simp
    also have "\<dots> = split_on CHR ''/'' (join ''/'' k2)"
      using eq by simp
    also have "\<dots> = k2"
      using split_on_join [OF n2 f2] .
    finally show "k1 = k2" .
  qed
  moreover have "distinct (url_keys [] ns)"
    using assms(1) by (rule url_keys_distinct(1))
  ultimately show ?thesis
    unfolding urls by (simp add: distinct_map)
qed

lemma scan_urls_distinct_example:
  "plain_tree [File ''index.md'' (Some ''Home''),
               Dir ''blog'' [File ''index.md'' (Some ''Blog''), File ''notes.txt'' None],
               File ''blog.md'' (Some ''About the blog'')]"
  by (simp add: plain_name_def plain_markdown_name_def backslash_def endsWith_def startsWith_def)

subsection \<open>Sidebar\<close>

lemmas sidebar_eval = sidebarTree_def under_directory_def startsWith_def groupKey_def
  addEntry_def object_prototype_keys_def sidebar_item_of_def or_else_def truthy_def obj_get_def
  sortItems_def is_number_def number_of_def object_entries_def is_array_index_def is_digit_def
  decimal_value_def formatTitle_def capitalize_def toUpperCase_def sample_entry_def Let_def

text \<open>\<open>getSidebarTree\<close> is its body on the content that \<open>getAllContent\<close> returns.\<close>

lemma getSidebarTree_body:
  "getAllContent E isDev root cachedContent = (Inr allContent, cachedContent1) \<Longrightarrow>
     getSidebarTree E isDev root cachedContent dir = (sidebarTree dir allContent, cachedContent1)"
  by (simp add: getSidebarTree_def)

lemma set_first_seen [simp]: "set (first_seen xs) = set xs"
  by (induction xs) auto

lemma distinct_first_seen [simp]: "distinct (first_seen xs)"
  by (induction xs) auto

lemma first_seen_snoc:
  "first_seen (xs @ [y]) = (if y \<in> set xs then first_seen xs else first_seen xs @ [y])"
  by (induction xs) auto

lemma filter_swap: "filter P (filter Q xs) = filter Q (filter P xs)"
  by (induction xs) auto

lemma first_seen_filter: "filter P (first_seen xs) = first_seen (filter P xs)"
proof (induction xs)
  case Nil
  then show ?case by simp
next
  case (Cons x xs)
  have swap: "filter P (filter (\<lambda>y. y \<noteq> x) (first_seen xs))
                = filter (\<lambda>y. y \<noteq> x) (first_seen (filter P xs))"
    by (simp only: filter_swap [of P] Cons.IH)
  show ?case
  proof (cases "P x")
    case True
    then show ?thesis using swap by simp
  next
    case False
    then have "x \<notin> set (first_seen (filter P xs))" by simp
    then have "filter (\<lambda>y. y \<noteq> x) (first_seen (filter P xs)) = first_seen (filter P xs)"
      by (auto simp: filter_id_conv)
    with False swap show ?thesis by simp
  qed
qed

lemma map_of_keyed:
  "map_of (map (\<lambda>k. (k, f k)) ks) k = (if k \<in> set ks then Some (f k) else None)"
  by (induction ks) auto

lemma push_item_keyed:
  assumes "distinct ks"
  shows "push_item (map (\<lambda>k. (k, f k)) ks) k it =
           map (\<lambda>k'. (k', if k' = k then (f k')\<lparr>items := items (f k') @ [it]\<rparr> else f k')) ks"
  using assms by (induction ks) auto

text \<open>Adding an entry to the groups of a list gives the groups of the longer list.\<close>

lemma addEntry_groups_of:
  assumes "groupKey dir e \<notin> set object_prototype_keys"
  shows "addEntry dir (groups_of dir done) e = Inr (groups_of dir (done @ [e]))"
proof -
  define k where "k = groupKey dir e"
  define ks where "ks = first_seen (map (groupKey dir) done)"
  have dks: "distinct ks" by (simp add: ks_def)
  have upd: "\<And>k'. (if k' = k then (group_for dir done k')\<lparr>items := items (group_for dir done k') @ [sidebar_item_of e]\<rparr>
                  else group_for dir done k') = group_for dir (done @ [e]) k'"
    by (auto simp: group_for_def k_def)
  show ?thesis
  proof (cases "k \<in> set ks")
    case True
    then have "k \<in> groupKey dir ` set done" by (simp add: ks_def)
    then have fs: "first_seen (map (groupKey dir) done @ [groupKey dir e]) = ks"
      by (simp add: first_seen_snoc ks_def k_def)
    have "map_of (groups_of dir done) k \<noteq> None"
      using True by (simp add: groups_of_def map_of_keyed ks_def [symmetric])
    then have "addEntry dir (groups_of dir done) e
                = Inr (push_item (groups_of dir done) k (sidebar_item_of e))"
      using assms by (auto simp: addEntry_def Let_def k_def [symmetric])
    also have "push_item (groups_of dir done) k (sidebar_item_of e)
                = map (\<lambda>k'. (k', group_for dir (done @ [e]) k')) ks"
      unfolding groups_of_def ks_def [symmetric]
      by (simp add: push_item_keyed [OF dks] upd)
    finally show ?thesis
      by (simp add: groups_of_def fs)
  next
    case False
    then have "k \<notin> groupKey dir ` set done" by (simp add: ks_def)
    then have fs: "first_seen (map (groupKey dir) done @ [groupKey dir e]) = ks @ [k]"
      by (simp add: first_seen_snoc ks_def k_def)
    have none: "filter (\<lambda>x. groupKey dir x = k) done = []"
      using \<open>k \<notin> groupKey dir ` set done\<close> by (auto simp: filter_empty_conv)
    define g0 where "g0 = \<lparr> group_title = (if k = ''_root'' then formatTitle dir else formatTitle k),
                                     items = [] \<rparr>"
    have g0: "g0 = group_for dir done k"
      by (simp add: g0_def group_for_def none)
    have "map_of (groups_of dir done) k = None"
      using False by (simp add: groups_of_def map_of_keyed ks_def [symmetric])
    then have "addEntry dir (groups_of dir done) e
                = Inr (push_item (groups_of dir done @ [(k, g0)]) k (sidebar_item_of e))"
      using assms by (simp add: addEntry_def Let_def k_def [symmetric] g0_def)
    also have "groups_of dir done @ [(k, g0)] = map (\<lambda>k'. (k', group_for dir done k')) (ks @ [k])"
      by (simp add: groups_of_def ks_def [symmetric] g0)
    also have "push_item \<dots> k (sidebar_item_of e)
                = map (\<lambda>k'. (k', group_for dir (done @ [e]) k')) (ks @ [k])"
      using dks False by (subst push_item_keyed) (simp_all add: upd)
    finally show ?thesis
      by (simp add: groups_of_def fs)
  qed
qed

lemma groupEntries_groups_of:
  assumes "\<forall>e\<in>set entries. groupKey dir e \<notin> set object_prototype_keys"
  shows "groupEntries dir entries (groups_of dir done) = Inr (groups_of dir (done @ entries))"
  using assms
proof (induction entries arbitrary: "done")
  case Nil
  then show ?case by simp
next
  case (Cons e entries)
  have "addEntry dir (groups_of dir done) e = Inr (groups_of dir (done @ [e]))"
    using Cons.prems by (simp add: addEntry_groups_of)
  moreover have "groupEntries dir entries (groups_of dir (done @ [e]))
                   = Inr (groups_of dir ((done @ [e]) @ entries))"
    using Cons.prems by (intro Cons.IH) simp
  ultimately show ?case by simp
qed

lemma item_order_number:
  assumes "truthy (obj_get (metadata e) ''order'') \<longrightarrow>
             (\<exists>n. obj_get (metadata e) ''order'' = Some (JNum n))"
  shows "item_order (sidebar_item_of e) = JNum (effective_order e)"
  using assms
  by (auto simp: sidebar_item_of_def or_else_def truthy_def effective_order_def
      split: option.splits jsval.splits)

lemma insort_key_map:
  "insort_key f (g x) (map g xs) = map g (insort_key (\<lambda>y. f (g y)) x xs)"
  by (induction xs) auto

lemma sort_key_map: "sort_key f (map g xs) = map g (sort_key (\<lambda>y. f (g y)) xs)"
  by (induction xs) (auto simp: insort_key_map)

lemma sort_key_cong_set:
  assumes "\<forall>x\<in>set xs. f x = g x"
  shows "sort_key f xs = sort_key g xs"
proof -
  have ins: "\<And>x ys. f x = g x \<Longrightarrow> \<forall>y\<in>set ys. f y = g y \<Longrightarrow> insort_key f x ys = insort_key g x ys"
  proof -
    fix x ys show "f x = g x \<Longrightarrow> \<forall>y\<in>set ys. f y = g y \<Longrightarrow> insort_key f x ys = insort_key g x ys"
      by (induction ys) auto
  qed
  show ?thesis
    using assms
  proof (induction xs)
    case Nil
    then show ?case by simp
  next
    case (Cons x xs)
    then have "sort_key f xs = sort_key g xs" by simp
    moreover have "\<forall>y\<in>set (sort_key g xs). f y = g y" using Cons.prems by simp
    ultimately show ?case using Cons.prems by (simp add: ins)
  qed
qed

lemma sortItems_entries:
  assumes "\<forall>e\<in>set es. truthy (obj_get (metadata e) ''order'') \<longrightarrow>
             (\<exists>n. obj_get (metadata e) ''order'' = Some (JNum n))"
  shows "sortItems (map sidebar_item_of es) = Inr (map sidebar_item_of (sort_key effective_order es))"
proof -
  have io: "\<forall>e\<in>set es. item_order (sidebar_item_of e) = JNum (effective_order e)"
    using assms by (simp add: item_order_number)
  then have "list_all (\<lambda>it. is_number (item_order it)) (map sidebar_item_of es)"
    by (simp add: list_all_iff is_number_def)
  moreover have "sort_key (\<lambda>it. number_of (item_order it)) (map sidebar_item_of es)
                  = map sidebar_item_of (sort_key (\<lambda>e. number_of (item_order (sidebar_item_of e))) es)"
    by (rule sort_key_map)
  moreover have "sort_key (\<lambda>e. number_of (item_order (sidebar_item_of e))) es = sort_key effective_order es"
    by (rule sort_key_cong_set) (simp add: io number_of_def)
  ultimately show ?thesis
    by (simp add: sortItems_def)
qed

lemma sortGroups_keyed:
  assumes "\<forall>k\<in>set ks. sortItems (items (f k)) = Inr (h k)"
  shows "sortGroups (map (\<lambda>k. (k, f k)) ks) = Inr (map (\<lambda>k. (k, (f k)\<lparr>items := h k\<rparr>)) ks)"
  using assms by (induction ks) auto

lemma sortGroups_groups_of:
  assumes "\<forall>e\<in>set es. truthy (obj_get (metadata e) ''order'') \<longrightarrow>
             (\<exists>n. obj_get (metadata e) ''order'' = Some (JNum n))"
  shows "sortGroups (groups_of dir es)
           = Inr (map (\<lambda>k. (k, sorted_group dir es k)) (first_seen (map (groupKey dir) es)))"
proof -
  have "\<forall>k\<in>set (first_seen (map (groupKey dir) es)).
          sortItems (items (group_for dir es k))
            = Inr (map sidebar_item_of (sort_key effective_order (filter (\<lambda>e. groupKey dir e = k) es)))"
    using assms by (auto simp: group_for_def intro!: sortItems_entries)
  from sortGroups_keyed [OF this] show ?thesis
    by (simp add: groups_of_def sorted_group_def group_for_def)
qed

lemma object_entries_plain:
  assumes "\<forall>k\<in>set ks. \<not> is_array_index k"
  shows "object_entries (map (\<lambda>k. (k, f k)) ks) = map (\<lambda>k. (k, f k)) ks"
proof -
  have "filter (\<lambda>(k, v). is_array_index k) (map (\<lambda>k. (k, f k)) ks) = []"
    using assms by (auto simp: filter_empty_conv)
  moreover have "filter (\<lambda>(k, v). \<not> is_array_index k) (map (\<lambda>k. (k, f k)) ks) = map (\<lambda>k. (k, f k)) ks"
    using assms by (auto simp: filter_id_conv)
  ultimately show ?thesis by (simp add: object_entries_def)
qed

lemma sidebarTree_shape:
  fixes dir :: string and allContent :: "content_entry list"
  defines "es \<equiv> filter (under_directory dir) allContent"
  assumes numeric: "\<forall>e\<in>set es. truthy (obj_get (metadata e) ''order'') \<longrightarrow>
             (\<exists>n. obj_get (metadata e) ''order'' = Some (JNum n))"
    and own: "\<forall>e\<in>set es. groupKey dir e \<notin> set object_prototype_keys"
  shows "sidebarTree dir allContent =
           Inr (map Leaf (items (sorted_group dir es ''_root''))
                @ map (\<lambda>(k, g). Group (group_title g) (items g))
                    (object_entries
                       (map (\<lambda>k. (k, sorted_group dir es k))
                          (filter (\<lambda>k. k \<noteq> ''_root'') (first_seen (map (groupKey dir) es))))))"
proof -
  define ks where "ks = first_seen (map (groupKey dir) es)"
  have "groupEntries dir es (groups_of dir []) = Inr (groups_of dir ([] @ es))"
    using own by (rule groupEntries_groups_of)
  then have g: "groupEntries dir es [] = Inr (groups_of dir es)"
    by (simp add: groups_of_def)
  have s: "sortGroups (groups_of dir es) = Inr (map (\<lambda>k. (k, sorted_group dir es k)) ks)"
    unfolding ks_def using numeric by (rule sortGroups_groups_of)
  have root: "(case map_of (map (\<lambda>k. (k, sorted_group dir es k)) ks) ''_root'' of
                 None \<Rightarrow> [] | Some g \<Rightarrow> map Leaf (items g))
              = map Leaf (items (sorted_group dir es ''_root''))"
  proof (cases "''_root'' \<in> set ks")
    case True
    then show ?thesis by (simp add: map_of_keyed)
  next
    case False
    have "\<forall>e\<in>set es. groupKey dir e \<noteq> ''_root''"
    proof
      fix e assume "e \<in> set es"
      then have "groupKey dir e \<in> set ks" by (simp add: ks_def)
      with False show "groupKey dir e \<noteq> ''_root''" by metis
    qed
    then have "filter (\<lambda>e. groupKey dir e = ''_root'') es = []"
      by (simp add: filter_empty_conv)
    with False show ?thesis by (simp add: map_of_keyed sorted_group_def)
  qed
  have rest: "filter (\<lambda>(key, g). key \<noteq> ''_root'') (map (\<lambda>k. (k, sorted_group dir es k)) ks)
               = map (\<lambda>k. (k, sorted_group dir es k)) (filter (\<lambda>k. k \<noteq> ''_root'') ks)"
    by (induction ks) auto
  show ?thesis
    unfolding sidebarTree_def Let_def es_def [symmetric] g sum.case s ks_def [symmetric] root rest ..
qed

lemma groupKey_direct: "directory e = dir \<Longrightarrow> groupKey dir e = ''_root''"
  by (simp add: groupKey_def)

lemma under_direct: "directory e = dir \<Longrightarrow> under_directory dir e"
  by (simp add: under_directory_def)

lemma sorted_precedes:
  assumes "sorted (map f xs)" and "x \<in> set xs" and "y \<in> set xs" and "f x < (f y :: int)"
  shows "\<exists>as bs cs. xs = as @ x # bs @ y # cs"
proof -
  from assms(3) obtain ps qs where xs: "xs = ps @ y # qs"
    by (auto dest: split_list)
  have "x \<notin> set qs"
  proof
    assume "x \<in> set qs"
    with assms(1) xs have "f y \<le> f x"
      by (simp add: sorted_append)
    with assms(4) show False by simp
  qed
  moreover have "x \<noteq> y" using assms(4) by auto
  ultimately have "x \<in> set ps" using assms(2) xs by auto
  then obtain as bs where "ps = as @ x # bs"
    by (auto dest: split_list)
  with xs have "xs = as @ x # bs @ y # qs" by simp
  then show ?thesis by blast
qed

text \<open>
  Claim C7, amended. Let every \<open>order\<close> of the entries under the directory be missing,
  falsy or a number, and let no group key be a property of \<open>Object.prototype\<close>, an array
  index or, for an entry of a subdirectory, the name \<open>_root\<close>. Then the sidebar is: the
  entries directly in the directory as leaves, sorted by \<open>effective_order\<close> (the \<open>order\<close>
  of the front matter when it is a number other than zero, 999 when there is none or it
  is falsy, zero included), entries of equal order in scan order; then one group for each
  first path segment below the directory, in the order in which the segments first
  occur in the scan, its children sorted in the same way. The \<open>order\<close> field of a node
  is the effective order.
\<close>

theorem sidebar_order:
  fixes dir :: string and allContent :: "content_entry list"
  defines "es \<equiv> filter (under_directory dir) allContent"
    and "direct \<equiv> filter (\<lambda>e. directory e = dir) allContent"
    and "nested \<equiv> filter (\<lambda>e. under_directory dir e \<and> directory e \<noteq> dir) allContent"
  assumes numeric: "\<forall>e\<in>set es. truthy (obj_get (metadata e) ''order'') \<longrightarrow>
             (\<exists>n. obj_get (metadata e) ''order'' = Some (JNum n))"
    and own: "\<forall>e\<in>set es. groupKey dir e \<notin> set object_prototype_keys"
    and plain: "\<forall>e\<in>set es. \<not> is_array_index (groupKey dir e)"
    and sentinel: "\<forall>e\<in>set es. groupKey dir e = ''_root'' \<longrightarrow> directory e = dir"
  shows "sidebarTree dir allContent =
           Inr (map (\<lambda>e. Leaf (sidebar_item_of e)) (sort_key effective_order direct)
                @ map (\<lambda>k. Group (formatTitle k)
                         (map sidebar_item_of
                            (sort_key effective_order
                               (filter (\<lambda>e. groupKey dir e = k) nested))))
                    (first_seen (map (groupKey dir) nested)))
         \<and> (\<forall>e\<in>set es. item_order (sidebar_item_of e) = JNum (effective_order e))
         \<and> sorted (map effective_order (sort_key effective_order direct))
         \<and> (\<forall>n. filter (\<lambda>e. effective_order e = n) (sort_key effective_order direct)
                 = filter (\<lambda>e. effective_order e = n) direct)"
proof -
  have root_iff: "(under_directory dir e \<and> groupKey dir e = ''_root'') = (directory e = dir)"
    if "e \<in> set allContent" for e
  proof
    assume l: "under_directory dir e \<and> groupKey dir e = ''_root''"
    with that have "e \<in> set es" by (simp add: es_def)
    with sentinel l show "directory e = dir" by blast
  next
    assume "directory e = dir"
    then show "under_directory dir e \<and> groupKey dir e = ''_root''"
      by (simp add: groupKey_direct under_direct)
  qed
  have direct: "filter (\<lambda>e. groupKey dir e = ''_root'') es = direct"
  proof -
    have "filter (\<lambda>e. groupKey dir e = ''_root'') es
            = filter (\<lambda>e. under_directory dir e \<and> groupKey dir e = ''_root'') allContent"
      by (simp add: es_def conj_commute)
    also have "\<dots> = direct"
      unfolding direct_def by (rule filter_cong) (simp_all add: root_iff)
    finally show ?thesis .
  qed
  have nested: "filter (\<lambda>e. groupKey dir e \<noteq> ''_root'') es = nested"
  proof -
    have "filter (\<lambda>e. groupKey dir e \<noteq> ''_root'') es
            = filter (\<lambda>e. under_directory dir e \<and> groupKey dir e \<noteq> ''_root'') allContent"
      by (simp add: es_def conj_commute)
    also have "\<dots> = nested"
      unfolding nested_def
    proof (rule filter_cong)
      fix e assume "e \<in> set allContent"
      from root_iff [OF this]
      show "(under_directory dir e \<and> groupKey dir e \<noteq> ''_root'')
              = (under_directory dir e \<and> directory e \<noteq> dir)"
        by blast
    qed simp
    finally show ?thesis .
  qed
  have sub: "filter (\<lambda>e. groupKey dir e = k) es = filter (\<lambda>e. groupKey dir e = k) nested"
    if "k \<noteq> ''_root''" for k
  proof -
    have "filter (\<lambda>e. groupKey dir e = k) nested
            = filter (\<lambda>e. groupKey dir e \<noteq> ''_root'' \<and> groupKey dir e = k) es"
      unfolding nested [symmetric] by simp
    also have "\<dots> = filter (\<lambda>e. groupKey dir e = k) es"
      using that by (intro filter_cong) auto
    finally show ?thesis by simp
  qed
  define ks where "ks = first_seen (map (groupKey dir) nested)"
  have ks: "filter (\<lambda>k. k \<noteq> ''_root'') (first_seen (map (groupKey dir) es)) = ks"
  proof -
    have "map (groupKey dir) nested = filter (\<lambda>k. k \<noteq> ''_root'') (map (groupKey dir) es)"
      unfolding nested [symmetric] by (simp add: filter_map comp_def)
    then show ?thesis
      by (simp only: ks_def first_seen_filter)
  qed
  have ks_sub: "set ks \<subseteq> groupKey dir ` set es"
    unfolding ks [symmetric] by auto
  have ks_nr: "''_root'' \<notin> set ks"
    unfolding ks [symmetric] by simp
  have "\<forall>k\<in>set ks. \<not> is_array_index k"
    using plain ks_sub by blast
  then have oe: "object_entries (map (\<lambda>k. (k, sorted_group dir es k)) ks)
                   = map (\<lambda>k. (k, sorted_group dir es k)) ks"
    by (rule object_entries_plain)
  have grp: "map (\<lambda>(k, g). Group (group_title g) (items g))
               (map (\<lambda>k. (k, sorted_group dir es k)) ks)
             = map (\<lambda>k. Group (formatTitle k)
                         (map sidebar_item_of
                            (sort_key effective_order
                               (filter (\<lambda>e. groupKey dir e = k) nested)))) ks"
  proof -
    have "Group (group_title (sorted_group dir es k)) (items (sorted_group dir es k))
            = Group (formatTitle k)
                (map sidebar_item_of
                   (sort_key effective_order (filter (\<lambda>e. groupKey dir e = k) nested)))"
      if "k \<in> set ks" for k
    proof -
      from that ks_nr have "k \<noteq> ''_root''" by metis
      then show ?thesis by (simp add: sorted_group_def sub)
    qed
    then show ?thesis by simp
  qed
  have leaves: "map Leaf (items (sorted_group dir es ''_root''))
                  = map (\<lambda>e. Leaf (sidebar_item_of e)) (sort_key effective_order direct)"
    by (simp add: sorted_group_def direct)
  have "sidebarTree dir allContent =
           Inr (map Leaf (items (sorted_group dir es ''_root''))
                @ map (\<lambda>(k, g). Group (group_title g) (items g))
                    (object_entries
                       (map (\<lambda>k. (k, sorted_group dir es k))
                          (filter (\<lambda>k. k \<noteq> ''_root'') (first_seen (map (groupKey dir) es))))))"
    using numeric own unfolding es_def by (rule sidebarTree_shape)
  then have tree: "sidebarTree dir allContent =
           Inr (map (\<lambda>e. Leaf (sidebar_item_of e)) (sort_key effective_order direct)
                @ map (\<lambda>k. Group (formatTitle k)
                         (map sidebar_item_of
                            (sort_key effective_order
                               (filter (\<lambda>e. groupKey dir e = k) nested)))) ks)"
    by (simp only: ks oe grp leaves)
  have "\<forall>e\<in>set es. item_order (sidebar_item_of e) = JNum (effective_order e)"
    using numeric by (simp add: item_order_number)
  moreover have "\<forall>n. filter (\<lambda>e. effective_order e = n) (sort_key effective_order direct)
                 = filter (\<lambda>e. effective_order e = n) direct"
    by (simp add: sort_key_stable)
  moreover have "sorted (map effective_order (sort_key effective_order direct))"
    by simp
  ultimately show ?thesis
    using tree unfolding ks_def by blast
qed

theorem sidebar_order_witness:
  "sidebarTree ''docs'' [sample_entry ''docs'' ''/docs/a'' [(''order'', JNum 2)],
      sample_entry ''docs'' ''/docs/b'' [(''order'', JNum 1)],
      sample_entry ''docs'' ''/docs/c'' [],
      sample_entry ''docs/guide'' ''/docs/guide/d'' [],
      sample_entry ''docs/api'' ''/docs/api/e'' [(''order'', JNum 1)],
      sample_entry ''docs/guide/deep'' ''/docs/guide/deep/f'' [(''order'', JNum 3)],
      sample_entry ''docs'' ''/docs/g'' [(''order'', JNum 1)],
      sample_entry ''blog'' ''/blog/h'' []]
   = Inr [Leaf \<lparr> item_title = None, item_url = ''/docs/b'', item_order = JNum 1 \<rparr>,
          Leaf \<lparr> item_title = None, item_url = ''/docs/g'', item_order = JNum 1 \<rparr>,
          Leaf \<lparr> item_title = None, item_url = ''/docs/a'', item_order = JNum 2 \<rparr>,
          Leaf \<lparr> item_title = None, item_url = ''/docs/c'', item_order = JNum 999 \<rparr>,
          Group ''Guide''
            [\<lparr> item_title = None, item_url = ''/docs/guide/deep/f'', item_order = JNum 3 \<rparr>,
             \<lparr> item_title = None, item_url = ''/docs/guide/d'', item_order = JNum 999 \<rparr>],
          Group ''Api''
            [\<lparr> item_title = None, item_url = ''/docs/api/e'', item_order = JNum 1 \<rparr>]]"
proof -
  define c where "c = [sample_entry ''docs'' ''/docs/a'' [(''order'', JNum 2)],
      sample_entry ''docs'' ''/docs/b'' [(''order'', JNum 1)],
      sample_entry ''docs'' ''/docs/c'' [],
      sample_entry ''docs/guide'' ''/docs/guide/d'' [],
      sample_entry ''docs/api'' ''/docs/api/e'' [(''order'', JNum 1)],
      sample_entry ''docs/guide/deep'' ''/docs/guide/deep/f'' [(''order'', JNum 3)],
      sample_entry ''docs'' ''/docs/g'' [(''order'', JNum 1)],
      sample_entry ''blog'' ''/blog/h'' []]"
  have 1: "\<forall>e\<in>set (filter (under_directory ''docs'') c).
             truthy (obj_get (metadata e) ''order'') \<longrightarrow>
             (\<exists>n. obj_get (metadata e) ''order'' = Some (JNum n))"
    by (simp add: c_def sidebar_eval)
  have 2: "\<forall>e\<in>set (filter (under_directory ''docs'') c).
             groupKey ''docs'' e \<notin> set object_prototype_keys"
    by (simp add: c_def sidebar_eval)
  have 3: "\<forall>e\<in>set (filter (under_directory ''docs'') c). \<not> is_array_index (groupKey ''docs'' e)"
    by (simp add: c_def sidebar_eval)
  have 4: "\<forall>e\<in>set (filter (under_directory ''docs'') c).
             groupKey ''docs'' e = ''_root'' \<longrightarrow> directory e = ''docs''"
    by (simp add: c_def sidebar_eval)
  from sidebar_order [OF 1 2 3 4]
  have "sidebarTree ''docs'' c =
           Inr (map (\<lambda>e. Leaf (sidebar_item_of e))
                  (sort_key effective_order (filter (\<lambda>e. directory e = ''docs'') c))
                @ map (\<lambda>k. Group (formatTitle k)
                         (map sidebar_item_of
                            (sort_key effective_order
                               (filter (\<lambda>e. groupKey ''docs'' e = k)
                                  (filter (\<lambda>e. under_directory ''docs'' e \<and> directory e \<noteq> ''docs'') c)))))
                    (first_seen (map (groupKey ''docs'')
                       (filter (\<lambda>e. under_directory ''docs'' e \<and> directory e \<noteq> ''docs'') c))))"
    by (rule conjunct1)
  also have "\<dots> = Inr [Leaf \<lparr> item_title = None, item_url = ''/docs/b'', item_order = JNum 1 \<rparr>,
          Leaf \<lparr> item_title = None, item_url = ''/docs/g'', item_order = JNum 1 \<rparr>,
          Leaf \<lparr> item_title = None, item_url = ''/docs/a'', item_order = JNum 2 \<rparr>,
          Leaf \<lparr> item_title = None, item_url = ''/docs/c'', item_order = JNum 999 \<rparr>,
          Group ''Guide''
            [\<lparr> item_title = None, item_url = ''/docs/guide/deep/f'', item_order = JNum 3 \<rparr>,
             \<lparr> item_title = None, item_url = ''/docs/guide/d'', item_order = JNum 999 \<rparr>],
          Group ''Api''
            [\<lparr> item_title = None, item_url = ''/docs/api/e'', item_order = JNum 1 \<rparr>]]"
    by (simp add: c_def sidebar_eval effective_order_def)
  finally show ?thesis
    unfolding c_def .
qed

text \<open>
  The claim as stated fails for the order 0: of two entries of \<open>docs\<close> with the orders 0
  and 1, in this scan order, the one with the order 1 comes first, and the other gets
  the order 999.
\<close>

theorem sidebar_zero_order_counterexample:
  "sidebarTree ''docs''
     [sample_entry ''docs'' ''/docs/a'' [(''order'', JNum 0)],
      sample_entry ''docs'' ''/docs/b'' [(''order'', JNum 1)]]
   = Inr [Leaf \<lparr> item_title = None, item_url = ''/docs/b'', item_order = JNum 1 \<rparr>,
          Leaf \<lparr> item_title = None, item_url = ''/docs/a'', item_order = JNum 999 \<rparr>]"
  by (simp add: sidebar_eval)

text \<open>
  What the hypotheses on the group keys leave out: \<open>Object.entries\<close> lists the groups
  whose key is an array index first, in numeric order; a subdirectory named after a
  property of \<open>Object.prototype\<close> ends the call with a TypeError; the entries of a
  subdirectory named \<open>_root\<close> are leaves.
\<close>

lemma sidebar_array_index_groups:
  "sidebarTree ''docs''
     [sample_entry ''docs/zeta'' ''/docs/zeta/a'' [],
      sample_entry ''docs/10'' ''/docs/10/b'' [],
      sample_entry ''docs/9'' ''/docs/9/c'' []]
   = Inr [Group ''9'' [\<lparr> item_title = None, item_url = ''/docs/9/c'', item_order = JNum 999 \<rparr>],
          Group ''10'' [\<lparr> item_title = None, item_url = ''/docs/10/b'', item_order = JNum 999 \<rparr>],
          Group ''Zeta'' [\<lparr> item_title = None, item_url = ''/docs/zeta/a'', item_order = JNum 999 \<rparr>]]"
  by (simp add: sidebar_eval)

lemma sidebar_inherited_key:
  "sidebarTree ''docs'' [sample_entry ''docs/constructor'' ''/docs/constructor/a'' []] = Inl TypeError"
  by (simp add: sidebar_eval)

lemma sidebar_root_named_subdirectory:
  "sidebarTree ''docs'' [sample_entry ''docs/_root'' ''/docs/_root/a'' []]
     = Inr [Leaf \<lparr> item_title = None, item_url = ''/docs/_root/a'', item_order = JNum 999 \<rparr>]"
  by (simp add: sidebar_eval)

text \<open>\<open>Object.entries\<close> lists every property of the object.\<close>

lemma set_object_entries: "set (object_entries obj) = set obj"
  by (auto simp: object_entries_def)

text \<open>
  Claim C10, amended. Let the call return a sidebar: no group key under the directory
  is a property of \<open>Object.prototype\<close>, and every \<open>order\<close> under the directory is missing,
  falsy or a number. Then an entry whose \<open>order\<close> is falsy (0, the empty string, \<open>false\<close>,
  \<open>null\<close>) gets the order 999, as an entry without the field does, and in every group,
  the leaves at the top as well as the children of a group node, its node comes after
  the node of every entry of the same group with an order from 1 to 998.
\<close>

theorem falsy_order_default:
  fixes dir :: string and allContent :: "content_entry list"
  defines "es \<equiv> filter (under_directory dir) allContent"
  assumes numeric: "\<forall>e\<in>set es. truthy (obj_get (metadata e) ''order'') \<longrightarrow>
             (\<exists>n. obj_get (metadata e) ''order'' = Some (JNum n))"
    and own: "\<forall>e\<in>set es. groupKey dir e \<notin> set object_prototype_keys"
    and a: "a \<in> set es" "\<not> truthy (obj_get (metadata a) ''order'')"
    and b: "b \<in> set es" "groupKey dir b = groupKey dir a"
           "obj_get (metadata b) ''order'' = Some (JNum n)" "0 < n" "n < 999"
  shows "item_order (sidebar_item_of a) = JNum 999
         \<and> (\<forall>c. obj_get (metadata c) ''order'' = None
                \<longrightarrow> item_order (sidebar_item_of c) = item_order (sidebar_item_of a))
         \<and> (\<exists>nodes. sidebarTree dir allContent = Inr nodes
               \<and> (if groupKey dir a = ''_root''
                   then \<exists>xs ys zs.
                          nodes = xs @ Leaf (sidebar_item_of b) # ys @ Leaf (sidebar_item_of a) # zs
                   else \<exists>xs ys zs.
                          Group (formatTitle (groupKey dir a))
                            (xs @ sidebar_item_of b # ys @ sidebar_item_of a # zs) \<in> set nodes))"
proof -
  define k where "k = groupKey dir a"
  define R where "R = filter (\<lambda>e. groupKey dir e = k) es"
  have aR: "a \<in> set R" and bR: "b \<in> set R"
    using a(1) b(1,2) by (simp_all add: R_def k_def)
  have oa: "effective_order a = 999"
    using a(2) by (auto simp: effective_order_def truthy_def split: option.splits jsval.splits)
  have ob: "effective_order b = n"
    using b(3,4) by (simp add: effective_order_def)
  have "sorted (map effective_order (sort_key effective_order R))"
    by simp
  moreover have "b \<in> set (sort_key effective_order R)" "a \<in> set (sort_key effective_order R)"
    using aR bR by simp_all
  moreover have "effective_order b < effective_order a"
    using oa ob b(5) by simp
  ultimately have "\<exists>as bs cs. sort_key effective_order R = as @ b # bs @ a # cs"
    by (rule sorted_precedes)
  then obtain as bs cs where decomp: "sort_key effective_order R = as @ b # bs @ a # cs"
    by blast
  have its: "items (sorted_group dir es k) = map sidebar_item_of (as @ b # bs @ a # cs)"
    unfolding decomp [symmetric] R_def by (simp add: sorted_group_def)
  define ks where "ks = filter (\<lambda>k. k \<noteq> ''_root'') (first_seen (map (groupKey dir) es))"
  define G where "G = map (\<lambda>(k, g). Group (group_title g) (items g))
                    (object_entries (map (\<lambda>k. (k, sorted_group dir es k)) ks))"
  define nodes where "nodes = map Leaf (items (sorted_group dir es ''_root'')) @ G"
  have tree: "sidebarTree dir allContent = Inr nodes"
    unfolding nodes_def G_def ks_def using numeric own unfolding es_def
    by (rule sidebarTree_shape)
  have place: "if k = ''_root''
               then \<exists>xs ys zs.
                      nodes = xs @ Leaf (sidebar_item_of b) # ys @ Leaf (sidebar_item_of a) # zs
               else \<exists>xs ys zs.
                      Group (formatTitle k)
                        (xs @ sidebar_item_of b # ys @ sidebar_item_of a # zs) \<in> set nodes"
  proof (cases "k = ''_root''")
    case True
    have "nodes = map (\<lambda>e. Leaf (sidebar_item_of e)) as @ Leaf (sidebar_item_of b)
                # map (\<lambda>e. Leaf (sidebar_item_of e)) bs @ Leaf (sidebar_item_of a)
                # (map (\<lambda>e. Leaf (sidebar_item_of e)) cs @ G)"
      using its True by (simp add: nodes_def)
    then have "\<exists>xs ys zs.
                 nodes = xs @ Leaf (sidebar_item_of b) # ys @ Leaf (sidebar_item_of a) # zs"
      by blast
    with True show ?thesis by simp
  next
    case False
    have "k \<in> set (map (groupKey dir) es)"
      using a(1) by (simp add: k_def)
    with False have "k \<in> set ks"
      by (simp add: ks_def)
    then have "(k, sorted_group dir es k) \<in> set (object_entries (map (\<lambda>k. (k, sorted_group dir es k)) ks))"
      by (simp add: set_object_entries)
    then have "Group (group_title (sorted_group dir es k)) (items (sorted_group dir es k)) \<in> set G"
      unfolding G_def by force
    moreover have "group_title (sorted_group dir es k) = formatTitle k"
      using False by (simp add: sorted_group_def)
    ultimately have "Group (formatTitle k)
                       (map sidebar_item_of as @ sidebar_item_of b
                        # map sidebar_item_of bs @ sidebar_item_of a # map sidebar_item_of cs)
                     \<in> set nodes"
      using its by (simp add: nodes_def)
    then have "\<exists>xs ys zs.
                 Group (formatTitle k)
                   (xs @ sidebar_item_of b # ys @ sidebar_item_of a # zs) \<in> set nodes"
      by blast
    with False show ?thesis by simp
  qed
  have "item_order (sidebar_item_of a) = JNum 999"
    using a(2) by (simp add: sidebar_item_of_def or_else_def)
  moreover have "\<forall>c. obj_get (metadata c) ''order'' = None
                \<longrightarrow> item_order (sidebar_item_of c) = JNum 999"
    by (simp add: sidebar_item_of_def or_else_def truthy_def)
  ultimately show ?thesis
    using tree place unfolding k_def by auto
qed

text \<open>For the leaves of \<open>docs\<close> (orders 0 and 5) and for the children of its group
  \<open>guide\<close> (the empty string and 7).\<close>

theorem falsy_order_default_witness:
  "item_order (sidebar_item_of (sample_entry ''docs'' ''/docs/a'' [(''order'', JNum 0)])) = JNum 999
   \<and> (\<exists>xs ys zs.
         sidebarTree ''docs''
           [sample_entry ''docs'' ''/docs/a'' [(''order'', JNum 0)],
            sample_entry ''docs'' ''/docs/b'' [(''order'', JNum 5)],
            sample_entry ''docs/guide'' ''/docs/guide/c'' [(''order'', JStr [])],
            sample_entry ''docs/guide'' ''/docs/guide/d'' [(''order'', JNum 7)]]
         = Inr (xs @ Leaf (sidebar_item_of (sample_entry ''docs'' ''/docs/b'' [(''order'', JNum 5)]))
                # ys @ Leaf (sidebar_item_of (sample_entry ''docs'' ''/docs/a'' [(''order'', JNum 0)]))
                # zs))
   \<and> (\<exists>nodes xs ys zs.
         sidebarTree ''docs''
           [sample_entry ''docs'' ''/docs/a'' [(''order'', JNum 0)],
            sample_entry ''docs'' ''/docs/b'' [(''order'', JNum 5)],
            sample_entry ''docs/guide'' ''/docs/guide/c'' [(''order'', JStr [])],
            sample_entry ''docs/guide'' ''/docs/guide/d'' [(''order'', JNum 7)]]
         = Inr nodes
         \<and> Group ''Guide''
              (xs @ sidebar_item_of (sample_entry ''docs/guide'' ''/docs/guide/d'' [(''order'', JNum 7)])
               # ys @ sidebar_item_of (sample_entry ''docs/guide'' ''/docs/guide/c'' [(''order'', JStr [])])
               # zs) \<in> set nodes)"
proof -
  define a where "a = sample_entry ''docs'' ''/docs/a'' [(''order'', JNum 0)]"
  define b where "b = sample_entry ''docs'' ''/docs/b'' [(''order'', JNum 5)]"
  define c where "c = sample_entry ''docs/guide'' ''/docs/guide/c'' [(''order'', JStr [])]"
  define d where "d = sample_entry ''docs/guide'' ''/docs/guide/d'' [(''order'', JNum 7)]"
  define all where "all = [a, b, c, d]"
  have es: "filter (under_directory ''docs'') all = all"
    by (simp add: all_def a_def b_def c_def d_def sample_entry_def under_directory_def
        startsWith_def)
  have 1: "\<forall>e\<in>set (filter (under_directory ''docs'') all).
             truthy (obj_get (metadata e) ''order'') \<longrightarrow>
             (\<exists>n. obj_get (metadata e) ''order'' = Some (JNum n))"
    unfolding es by (simp add: all_def a_def b_def c_def d_def sample_entry_def truthy_def
        obj_get_def)
  have keys: "groupKey ''docs'' a = ''_root''" "groupKey ''docs'' b = ''_root''"
    "groupKey ''docs'' c = ''guide''" "groupKey ''docs'' d = ''guide''"
    by (simp_all add: a_def b_def c_def d_def sample_entry_def groupKey_def startsWith_def)
  have 2: "\<forall>e\<in>set (filter (under_directory ''docs'') all).
             groupKey ''docs'' e \<notin> set object_prototype_keys"
    unfolding es by (simp add: all_def keys object_prototype_keys_def)
  have a0: "a \<in> set (filter (under_directory ''docs'') all)"
    unfolding es by (simp add: all_def)
  have a3:
    "\<not> truthy (obj_get (metadata a) ''order'')"
    by (simp add: a_def sample_entry_def truthy_def obj_get_def)
  have b0: "b \<in> set (filter (under_directory ''docs'') all)"
    unfolding es by (simp add: all_def)
  have b3:
    "groupKey ''docs'' b = groupKey ''docs'' a"
    "obj_get (metadata b) ''order'' = Some (JNum 5)" "(0::int) < 5" "(5::int) < 999"
    by (simp add: keys, simp add: b_def sample_entry_def obj_get_def, simp_all)
  have c0: "c \<in> set (filter (under_directory ''docs'') all)"
    unfolding es by (simp add: all_def)
  have c3:
    "\<not> truthy (obj_get (metadata c) ''order'')"
    by (simp add: c_def sample_entry_def truthy_def obj_get_def)
  have d0: "d \<in> set (filter (under_directory ''docs'') all)"
    unfolding es by (simp add: all_def)
  have d3:
    "groupKey ''docs'' d = groupKey ''docs'' c"
    "obj_get (metadata d) ''order'' = Some (JNum 7)" "(0::int) < 7" "(7::int) < 999"
    by (simp add: keys, simp add: d_def sample_entry_def obj_get_def, simp_all)
  have title: "formatTitle ''guide'' = ''Guide''"
    by (simp add: formatTitle_def capitalize_def toUpperCase_def)
  have ne: "''guide'' \<noteq> ''_root''"
    by simp
  have top: "\<exists>xs ys zs. sidebarTree ''docs'' all
               = Inr (xs @ Leaf (sidebar_item_of b) # ys @ Leaf (sidebar_item_of a) # zs)"
    using falsy_order_default [OF 1 2 a0 a3 b0 b3] by (auto simp: keys)
  have sub: "\<exists>nodes xs ys zs. sidebarTree ''docs'' all = Inr nodes
               \<and> Group ''Guide'' (xs @ sidebar_item_of d # ys @ sidebar_item_of c # zs)
                   \<in> set nodes"
    using falsy_order_default [OF 1 2 c0 c3 d0 d3] by (auto simp: keys title)
  have "item_order (sidebar_item_of a) = JNum 999"
    using falsy_order_default [OF 1 2 a0 a3 b0 b3] by blast
  with top sub show ?thesis
    unfolding all_def a_def b_def c_def d_def by blast
qed

text \<open>
  The claim as stated fails for a positive order above 999: the entry with the order 0
  comes before the one with the order 1000.
\<close>

theorem falsy_order_counterexample:
  "sidebarTree ''docs''
     [sample_entry ''docs'' ''/docs/a'' [(''order'', JNum 0)],
      sample_entry ''docs'' ''/docs/b'' [(''order'', JNum 1000)]]
   = Inr [Leaf \<lparr> item_title = None, item_url = ''/docs/a'', item_order = JNum 999 \<rparr>,
          Leaf \<lparr> item_title = None, item_url = ''/docs/b'', item_order = JNum 1000 \<rparr>]"
  by (simp add: sidebar_eval)


end
